theory Spec2Isabelle
  imports Main
begin

section \<open>The run records\<close>

text \<open>
  The command line tool \<^verbatim>\<open>src/index.ts\<close> builds, for every discovered suite file, one
  asynchronous suite executor (the arrow function pushed on \<^verbatim>\<open>runners\<close>), and then runs the
  executors in slices of \<^verbatim>\<open>parallelRun\<close>. The executor works on a Runner object and its
  test case records and talks to an event manager, a web driver, a clock and a logger.
\<close>

text \<open>
  Modelled from the spec: the enumeration \<^verbatim>\<open>TestStatus\<close> is declared in the package
  \<^verbatim>\<open>@codewave-ui/core\<close>, which is not among the sources. The code names the members
  \<^verbatim>\<open>SUCCESS\<close> and \<^verbatim>\<open>FAILED\<close>; the others are the status values the spec lists.
\<close>

datatype TestStatus = NOT_STARTED | PENDING | RUNNING | SUCCESS | FAILED | SKIPPED

datatype EventType = BEFORE_SUITE | BEFORE_CASE | AFTER_CASE | AFTER_SUITE

text \<open>
  A value thrown in JavaScript is any value. The code tells two kinds apart with
  \<^verbatim>\<open>instanceof Error\<close>: an Error object, with its message and stack, and anything else
  (kept here by its printed form).
\<close>

datatype thrown = Error (message: string) (stack: string) | NonError (printed: string)

text \<open>
  The outcome of an awaited call of a collaborator: \<open>None\<close> when the promise is fulfilled,
  \<open>Some v\<close> when it is rejected with \<open>v\<close>.
\<close>

type_synonym outcome = "thrown option"

text \<open>
  Modelled from the spec: the classes of the Runner and of its test case records are
  declared in \<^verbatim>\<open>@codewave-ui/core\<close>, which is not among the sources. The fields are those
  the code reads and writes; both kinds of record carry a status, a start time, an end time
  and a duration rendered as text. The fields \<^verbatim>\<open>id\<close>, \<^verbatim>\<open>name\<close> and \<^verbatim>\<open>method\<close> of a
  test case are \<open>caseId\<close>, \<open>caseName\<close> and \<open>caseMethod\<close> here; the body takes the driver,
  which is known by the index of the case it was created for.
\<close>

record RunRecord =
  status :: TestStatus
  startTime :: int
  endTime :: int
  duration :: string

record TestCase = RunRecord +
  caseId :: string
  caseName :: string
  enabled :: bool
  caseMethod :: "nat \<Rightarrow> outcome"
  exception :: "string option"
  screenshot :: "string option"

record Runner = RunRecord +
  testCases :: "TestCase list"
  currentTestCaseIndex :: nat

text \<open>
  Modelled from the spec: the methods \<^verbatim>\<open>startNow\<close>, \<^verbatim>\<open>endNow\<close> and
  \<^verbatim>\<open>generateDuration\<close> of both records are code of \<^verbatim>\<open>@codewave-ui/core\<close>, which is
  not among the sources. In the spec the first step of a run, whose whole code is
  \<^verbatim>\<open>currentRunner.startNow()\<close>, marks the Runner \<open>RUNNING\<close> and records the start time,
  and a test case goes from \<open>PENDING\<close> to \<open>RUNNING\<close> when its body is started; the other
  two record the end time, and set the duration to end minus start in milliseconds,
  rendered by an external formatter. The time read is passed in.
\<close>

definition startNow :: "int \<Rightarrow> 'a RunRecord_scheme \<Rightarrow> 'a RunRecord_scheme" where
  "startNow t r = r\<lparr>status := RUNNING, startTime := t\<rparr>"

definition endNow :: "int \<Rightarrow> 'a RunRecord_scheme \<Rightarrow> 'a RunRecord_scheme" where
  "endNow t r = r\<lparr>endTime := t\<rparr>"

definition generateDuration :: "(int \<Rightarrow> string) \<Rightarrow> 'a RunRecord_scheme \<Rightarrow> 'a RunRecord_scheme" where
  "generateDuration pretty r = r\<lparr>duration := pretty (endTime r - startTime r)\<rparr>"

section \<open>The collaborators and the observable actions\<close>

text \<open>
  Everything the executor awaits is a collaborator outside this repository. Each is a
  parameter: the outcome of a hook emission (which may depend on the Runner passed in the
  payload), of starting the driver created for the case at an index, of destroying it (told
  whether that handle was destroyed before), of saving a screenshot to a path, the reading
  of the clock at each read, the formatter \<^verbatim>\<open>convertTimeMillisToPrettyString\<close> and the
  path \<^verbatim>\<open>path.resolve(path.join(loggerFactory.logFolder, now + '.png'))\<close>. The body of a
  test case is the field \<open>caseMethod\<close> of its record. As the spec has it, the run records are
  mutated by the executor only.
\<close>

record env =
  emit :: "EventType \<Rightarrow> Runner \<Rightarrow> outcome"
  startDriver :: "nat \<Rightarrow> outcome"
  destroyDriver :: "nat \<Rightarrow> bool \<Rightarrow> outcome"
  saveScreenshot :: "nat \<Rightarrow> string \<Rightarrow> outcome"
  now :: "nat \<Rightarrow> int"
  convertTimeMillisToPrettyString :: "int \<Rightarrow> string"
  ssPath :: "int \<Rightarrow> string"

datatype level = INFO | WARN | ERROR

datatype action =
    Emit EventType nat
  | StartDriver nat
  | DestroyDriver nat
  | RunBody nat
  | SaveScreenshot nat string
  | Log level string

text \<open>
  The state of one suite execution: the Runner, the actions performed so far in order, the
  number of clock reads so far, the value of the Runner after each assignment to it, and
  whether \<^verbatim>\<open>destroyDriver\<close> has been called on the driver object in scope.
\<close>

record exec_state =
  runner :: Runner
  trace :: "action list"
  ticks :: nat
  snaps :: "Runner list"
  destroyed :: bool

definition act :: "action \<Rightarrow> exec_state \<Rightarrow> exec_state" where
  "act a s = s\<lparr>trace := trace s @ [a]\<rparr>"

definition mutate :: "(Runner \<Rightarrow> Runner) \<Rightarrow> exec_state \<Rightarrow> exec_state" where
  "mutate f s = s\<lparr>runner := f (runner s), snaps := snaps s @ [f (runner s)]\<rparr>"

definition tick :: "env \<Rightarrow> exec_state \<Rightarrow> int \<times> exec_state" where
  "tick E s = (now E (ticks s), s\<lparr>ticks := Suc (ticks s)\<rparr>)"

text \<open>\<^verbatim>\<open>currentRunner.testCases[currentRunner.currentTestCaseIndex]\<close>, read and updated.\<close>

definition currentCase :: "Runner \<Rightarrow> TestCase" where
  "currentCase r = testCases r ! currentTestCaseIndex r"

definition onCurrentCase :: "(TestCase \<Rightarrow> TestCase) \<Rightarrow> Runner \<Rightarrow> Runner" where
  "onCurrentCase f r =
     r\<lparr>testCases := (testCases r)[currentTestCaseIndex r := f (currentCase r)]\<rparr>"

section \<open>The suite executor\<close>

text \<open>\<^verbatim>\<open>assertIsError\<close>: returns for an Error, throws its argument otherwise.\<close>

definition assertIsError :: "thrown \<Rightarrow> outcome" where
  "assertIsError error = (case error of Error m st \<Rightarrow> None | NonError x \<Rightarrow> Some error)"

text \<open>The text \<^verbatim>\<open>`${err.message}\n${err.stack}`\<close> handed to the logger.\<close>

definition errorText :: "thrown \<Rightarrow> string" where
  "errorText err = message err @ [CHR 0x0A] @ stack err"

definition disabledText :: "TestCase \<Rightarrow> string" where
  "disabledText c =
     ''Test '' @ caseName c @ '' ['' @ caseId c @ ''] is disabled! Skipping test execution...''"

text \<open>
  \<^verbatim>\<open>await driver.destroyDriver()\<close> on the driver created for the case at \<open>index\<close>
  (\<^verbatim>\<open>new WebDriver(...)\<close> in \<open>execCase\<close> below makes a fresh one for each enabled case).
\<close>

definition release :: "env \<Rightarrow> nat \<Rightarrow> exec_state \<Rightarrow> exec_state \<times> outcome" where
  "release E index s =
     (act (DestroyDriver index) (s\<lparr>destroyed := True\<rparr>),
      destroyDriver E index (destroyed s))"

text \<open>The try/catch around \<^verbatim>\<open>saveScreenshot\<close> (lines 199 to 208).\<close>

definition takeScreenshot :: "env \<Rightarrow> nat \<Rightarrow> int \<Rightarrow> exec_state \<Rightarrow> exec_state \<times> outcome" where
  "takeScreenshot E index t s =
     (let ssp = ssPath E t;
          s1 = act (SaveScreenshot index ssp) s
      in case saveScreenshot E index ssp of
           None \<Rightarrow> (mutate (onCurrentCase (\<lambda>c. c\<lparr>screenshot := Some ssp\<rparr>)) s1, None)
         | Some ssError \<Rightarrow>
             (case assertIsError ssError of
                Some v \<Rightarrow> (s1, Some v)
              | None \<Rightarrow> (act (Log WARN (errorText ssError)) s1, None)))"

text \<open>The catch block of the test body (lines 188 to 211), entered with \<open>tcError\<close>.\<close>

definition bodyFailed :: "env \<Rightarrow> nat \<Rightarrow> thrown \<Rightarrow> exec_state \<Rightarrow> exec_state \<times> outcome" where
  "bodyFailed E index tcError s =
     (case assertIsError tcError of
        Some v \<Rightarrow> (s, Some v)
      | None \<Rightarrow>
          (let (t, s1) = tick E s;
               (t1, s2) = tick E s1;
               s3 = mutate (onCurrentCase (endNow t1)) s2;
               s4 = mutate (onCurrentCase
                      (generateDuration (convertTimeMillisToPrettyString E))) s3;
               s5 = mutate (onCurrentCase (\<lambda>c. c\<lparr>status := FAILED\<rparr>)) s4;
               s6 = mutate (onCurrentCase (\<lambda>c. c\<lparr>exception := Some (message tcError)\<rparr>)) s5
           in case takeScreenshot E index t s6 of
                (s7, Some v) \<Rightarrow> (s7, Some v)
              | (s7, None) \<Rightarrow>
                  (act (Log ERROR (errorText tcError))
                     (mutate (\<lambda>r. r\<lparr>status := FAILED\<rparr>) s7), None)))"

text \<open>The inner try statement (lines 180 to 211): run the body, record the result.\<close>

definition runBody :: "env \<Rightarrow> nat \<Rightarrow> exec_state \<Rightarrow> exec_state \<times> outcome" where
  "runBody E index s =
     (let (t0, s1) = tick E s;
          s2 = mutate (onCurrentCase (startNow t0)) s1;
          s3 = act (RunBody index) s2
      in case caseMethod (testCases (runner s) ! index) index of
           None \<Rightarrow>
             (let s4 = mutate (onCurrentCase (\<lambda>c. c\<lparr>status := SUCCESS\<rparr>)) s3;
                  (t1, s5) = tick E s4;
                  s6 = mutate (onCurrentCase (endNow t1)) s5
              in (mutate (onCurrentCase
                    (generateDuration (convertTimeMillisToPrettyString E))) s6, None))
         | Some tcError \<Rightarrow> bodyFailed E index tcError s3)"

text \<open>
  The outer try statement (lines 172 to 219): emit \<^verbatim>\<open>BEFORE_CASE\<close>, then the inner try
  statement; its catch block receives whatever either of them throws.
\<close>

definition beforeCaseAndBody :: "env \<Rightarrow> nat \<Rightarrow> exec_state \<Rightarrow> exec_state \<times> outcome" where
  "beforeCaseAndBody E index s =
     (let s1 = act (Emit BEFORE_CASE (currentTestCaseIndex (runner s))) s;
          (s2, r) = (case emit E BEFORE_CASE (runner s1) of
                       Some v \<Rightarrow> (s1, Some v)
                     | None \<Rightarrow> runBody E index s1)
      in case r of
           None \<Rightarrow> (s2, None)
         | Some btcError \<Rightarrow>
             (case assertIsError btcError of
                Some v \<Rightarrow> (s2, Some v)
              | None \<Rightarrow>
                  release E index
                    (mutate (onCurrentCase
                       (\<lambda>c. c\<lparr>duration := convertTimeMillisToPrettyString E 0\<rparr>))
                       (act (Log ERROR (errorText btcError)) s2))))"

text \<open>The try statement around the \<^verbatim>\<open>AFTER_CASE\<close> emission (lines 222 to 231).\<close>

definition afterCase :: "env \<Rightarrow> exec_state \<Rightarrow> exec_state \<times> outcome" where
  "afterCase E s =
     (let s1 = act (Emit AFTER_CASE (currentTestCaseIndex (runner s))) s
      in case emit E AFTER_CASE (runner s1) of
           None \<Rightarrow> (s1, None)
         | Some atcError \<Rightarrow>
             (case assertIsError atcError of
                Some v \<Rightarrow> (s1, Some v)
              | None \<Rightarrow> (act (Log ERROR (errorText atcError)) s1, None)))"

text \<open>One iteration of the loop over the test cases (lines 165 to 239).\<close>

definition execCase :: "env \<Rightarrow> nat \<Rightarrow> exec_state \<Rightarrow> exec_state \<times> outcome" where
  "execCase E index s =
     (let s1 = mutate (\<lambda>r. r\<lparr>currentTestCaseIndex := index\<rparr>) s
      in if enabled (testCases (runner s) ! index) then
           (let s2 = act (StartDriver index) (s1\<lparr>destroyed := False\<rparr>)
            in case startDriver E index of
                 Some v \<Rightarrow> (s2, Some v)
               | None \<Rightarrow>
                   (case beforeCaseAndBody E index s2 of
                      (s3, Some v) \<Rightarrow> (s3, Some v)
                    | (s3, None) \<Rightarrow>
                        (case afterCase E s3 of
                           (s4, Some v) \<Rightarrow> (s4, Some v)
                         | (s4, None) \<Rightarrow> release E index s4)))
         else (act (Log INFO (disabledText (currentCase (runner s1)))) s1, None))"

text \<open>The loop over \<^verbatim>\<open>currentRunner.testCases.entries()\<close>; a throw leaves it.\<close>

fun runCases :: "env \<Rightarrow> nat list \<Rightarrow> exec_state \<Rightarrow> exec_state \<times> outcome" where
  "runCases E [] s = (s, None)"
| "runCases E (index # rest) s =
     (case execCase E index s of
        (s', Some v) \<Rightarrow> (s', Some v)
      | (s', None) \<Rightarrow> runCases E rest s')"

text \<open>The last try statement (lines 241 to 252).\<close>

definition afterSuite :: "env \<Rightarrow> exec_state \<Rightarrow> exec_state \<times> outcome" where
  "afterSuite E s =
     (let (t, s1) = tick E s;
          s2 = mutate (endNow t) s1;
          s3 = mutate (generateDuration (convertTimeMillisToPrettyString E)) s2;
          s4 = act (Emit AFTER_SUITE (currentTestCaseIndex (runner s3))) s3
      in case emit E AFTER_SUITE (runner s4) of
           None \<Rightarrow> (s4, None)
         | Some err \<Rightarrow>
             (case assertIsError err of
                Some v \<Rightarrow> (s4, Some v)
              | None \<Rightarrow> (act (Log ERROR (errorText err)) s4, None)))"

text \<open>
  The runner main function (lines 144 to 253). The second component is how the promise of
  the executor settles: \<open>None\<close> fulfilled, \<open>Some v\<close> rejected with \<open>v\<close>.
\<close>

definition runnerMain :: "env \<Rightarrow> exec_state \<Rightarrow> exec_state \<times> outcome" where
  "runnerMain E s =
     (let (t, s1) = tick E s;
          s2 = mutate (startNow t) s1;
          s3 = act (Emit BEFORE_SUITE (currentTestCaseIndex (runner s2))) s2
      in case emit E BEFORE_SUITE (runner s3) of
           Some err \<Rightarrow>
             (case assertIsError err of
                Some v \<Rightarrow> (s3, Some v)
              | None \<Rightarrow>
                  (let s4 = act (Log ERROR (errorText err)) s3;
                       (t1, s5) = tick E s4;
                       s6 = mutate (endNow t1) s5
                   in (mutate (generateDuration (convertTimeMillisToPrettyString E)) s6,
                       None)))
         | None \<Rightarrow>
             (case runCases E [0..<length (testCases (runner s3))] s3 of
                (s4, Some v) \<Rightarrow> (s4, Some v)
              | (s4, None) \<Rightarrow> afterSuite E s4))"

text \<open>A fresh execution of the suite whose Runner is \<open>r\<close>.\<close>

definition initial :: "Runner \<Rightarrow> exec_state" where
  "initial r = \<lparr>runner = r, trace = [], ticks = 0, snaps = [], destroyed = False\<rparr>"

section \<open>The batch scheduler and the command\<close>

text \<open>
  \<^verbatim>\<open>Array.prototype.slice(start, end)\<close>: a negative bound counts from the end of the
  array, and both bounds are clamped to the array.
\<close>

definition slice :: "'a list \<Rightarrow> int \<Rightarrow> int \<Rightarrow> 'a list" where
  "slice xs start end =
     (let len = int (length xs);
          k = (if start < 0 then max (len + start) 0 else min start len);
          final = (if end < 0 then max (len + end) 0 else min end len)
      in take (nat (final - k)) (drop (nat k) xs))"

text \<open>
  What the scheduler does is observed as: the slices it formed, each as the positions its
  members have in \<^verbatim>\<open>runners\<close>; its own steps in the order it takes them; and what
  \<^verbatim>\<open>console.error\<close> printed. The steps are the invocation of an executor, by
  \<^verbatim>\<open>sliceRunners.map(runner => runner())\<close>, and the return of
  \<^verbatim>\<open>await Promise.allSettled(promises)\<close>, which happens once every promise of the slice is
  settled, in whatever order they settle, and which yields the results in the order of the
  promises. The executors of one invocation work on separate Runners, so each settles as it
  would alone.
\<close>

datatype sched_event = Invoke nat | AllSettled "(nat \<times> outcome) list"

record schedule_log =
  slices :: "nat list list"
  events :: "sched_event list"
  console :: "thrown list"

text \<open>The loop over \<^verbatim>\<open>results\<close> (lines 260 to 264): the reasons of the rejected ones.\<close>

definition rejections :: "outcome list \<Rightarrow> thrown list" where
  "rejections results =
     concat (map (\<lambda>result. case result of Some reason \<Rightarrow> [reason] | None \<Rightarrow> []) results)"

text \<open>One iteration of the scheduler loop (lines 257 to 264) on the slice taken.\<close>

definition runSlice :: "(nat \<times> (unit \<Rightarrow> outcome)) list \<Rightarrow> schedule_log \<Rightarrow> schedule_log" where
  "runSlice sliceRunners log =
     (let results = map (\<lambda>(k, runner). (k, runner ())) sliceRunners
      in \<lparr>slices = slices log @ [map fst sliceRunners],
          events = events log @ map (\<lambda>(k, runner). Invoke k) sliceRunners
                     @ [AllSettled results],
          console = console log @ rejections (map snd results)\<rparr>)"

text \<open>
  The scheduler loop (lines 256 to 265). With a width below one the loop of the source
  does not end; the model then has no result.
\<close>

partial_function (option) schedule ::
  "int \<Rightarrow> (unit \<Rightarrow> outcome) list \<Rightarrow> int \<Rightarrow> schedule_log \<Rightarrow> schedule_log option" where
  "schedule parallelRun runners i log =
     (if i < int (length runners)
      then schedule parallelRun runners (i + parallelRun)
             (runSlice (slice (enumerate 0 runners) i (i + parallelRun)) log)
      else Some log)"

definition emptyLog :: schedule_log where
  "emptyLog = \<lparr>slices = [], events = [], console = []\<rparr>"

text \<open>
  Modelled from the spec: the configuration class is declared in \<^verbatim>\<open>@codewave-ui/core\<close>,
  which is not among the sources; the spec has it expose \<^verbatim>\<open>parallelExecution\<close>, an
  integer.
\<close>

record Config =
  parallelExecution :: int

text \<open>
  What the loop over the discovered files (lines 75 to 254) obtains for one file: the
  configuration loaded for it, the collaborators of its suite and the Runner of its suite.
  Importing the modules of the suite and of the listeners is left to the loaders. The
  switch on the platform builds the same configuration class in each of its branches, so
  the platform makes no difference to what is modelled.
\<close>

record suiteFile =
  config :: Config
  collaborators :: env
  currentRunner :: Runner

definition executor :: "suiteFile \<Rightarrow> (unit \<Rightarrow> outcome)" where
  "executor file = (\<lambda>_. snd (runnerMain (collaborators file) (initial (currentRunner file))))"

text \<open>
  The loop over the files: \<^verbatim>\<open>parallelRun\<close> starts at 1 and is assigned from the
  configuration of each file in turn; one executor is pushed per file.
\<close>

definition loadSuite :: "int \<times> (unit \<Rightarrow> outcome) list \<Rightarrow> suiteFile
    \<Rightarrow> int \<times> (unit \<Rightarrow> outcome) list" where
  "loadSuite acc file = (parallelExecution (config file), snd acc @ [executor file])"

definition discover :: "suiteFile list \<Rightarrow> int \<times> (unit \<Rightarrow> outcome) list" where
  "discover files = foldl loadSuite (1, []) files"

definition main :: "suiteFile list \<Rightarrow> schedule_log option" where
  "main files = (let (parallelRun, runners) = discover files
                 in schedule parallelRun runners 0 emptyLog)"

section \<open>Notions used in the statements\<close>

text \<open>The actions performed between two states of one execution.\<close>

definition performed :: "exec_state \<Rightarrow> exec_state \<Rightarrow> action list" where
  "performed s s' = drop (length (trace s)) (trace s')"

text \<open>
  The Runner at every point of the execution of a suite: its value after each
  assignment of the executor to it or to one of its test case records, in order, the first
  being the one of \<^verbatim>\<open>currentRunner.startNow()\<close>.
\<close>

definition history :: "env \<Rightarrow> Runner \<Rightarrow> Runner list" where
  "history E r = snaps (fst (runnerMain E (initial r)))"

text \<open>In a sequence of Runner values, a status \<open>FAILED\<close> stays in all later values.\<close>

fun neverReverted :: "Runner list \<Rightarrow> bool" where
  "neverReverted [] = True"
| "neverReverted (r # rs) =
     ((status r = FAILED \<longrightarrow> (\<forall>r' \<in> set rs. status r' = FAILED)) \<and> neverReverted rs)"

text \<open>From \<open>s\<close> to \<open>s'\<close> the assignments were recorded and none reverted a \<open>FAILED\<close>.\<close>

definition advances :: "exec_state \<Rightarrow> exec_state \<Rightarrow> bool" where
  "advances s s' \<longleftrightarrow>
     (\<exists>more. snaps s' = snaps s @ more \<and> neverReverted (runner s # more) \<and>
        runner s' = last (runner s # more))"

text \<open>
  From \<open>s\<close> to \<open>s'\<close> the cursor came to be at \<open>j\<close>, and the record of every other case is
  as it was.
\<close>

definition inCase :: "nat \<Rightarrow> exec_state \<Rightarrow> exec_state \<Rightarrow> bool" where
  "inCase j s s' \<longleftrightarrow>
     currentTestCaseIndex (runner s') = j \<and>
     length (testCases (runner s')) = length (testCases (runner s)) \<and>
     (\<forall>i. i \<noteq> j \<longrightarrow> testCases (runner s') ! i = testCases (runner s) ! i)"

text \<open>
  The state of an iteration for an enabled case once the cursor is set and the driver of the
  case is created and asked to start.
\<close>

definition started :: "nat \<Rightarrow> exec_state \<Rightarrow> exec_state" where
  "started index s =
     act (StartDriver index)
       (mutate (\<lambda>r. r\<lparr>currentTestCaseIndex := index\<rparr>) s\<lparr>destroyed := False\<rparr>)"


text \<open>
  The spec's partition of a sequence into consecutive slices of length at most \<open>w\<close>, to
  compare the scheduler loop with.
\<close>

fun consecutiveSlices :: "nat \<Rightarrow> 'a list \<Rightarrow> 'a list list" where
  "consecutiveSlices w xs =
     (if w = 0 \<or> xs = [] then [] else take w xs # consecutiveSlices w (drop w xs))"

definition sliceEvents :: "(unit \<Rightarrow> outcome) list \<Rightarrow> nat list \<Rightarrow> sched_event list" where
  "sliceEvents runners b = map Invoke b @ [AllSettled (map (\<lambda>k. (k, (runners ! k) ())) b)]"

definition sliceRejections :: "(unit \<Rightarrow> outcome) list \<Rightarrow> nat list \<Rightarrow> thrown list" where
  "sliceRejections runners b = rejections (map (\<lambda>k. (runners ! k) ()) b)"

text \<open>
  The executors invoked, in the order of the events, and the results that the returns of
  \<^verbatim>\<open>allSettled\<close> yielded, one return after the other.
\<close>

fun invoked :: "sched_event list \<Rightarrow> nat list" where
  "invoked [] = []"
| "invoked (Invoke k # es) = k # invoked es"
| "invoked (AllSettled results # es) = invoked es"

fun awaited :: "sched_event list \<Rightarrow> (nat \<times> outcome) list" where
  "awaited [] = []"
| "awaited (Invoke k # es) = awaited es"
| "awaited (AllSettled results # es) = results @ awaited es"

text \<open>
  The stage of an event when the executors are grouped by \<open>w\<close>: the number of the slice,
  counted twice, for an invocation, and one more for the return of \<^verbatim>\<open>allSettled\<close> on the
  slice.
\<close>

fun stage :: "nat \<Rightarrow> sched_event \<Rightarrow> nat" where
  "stage w (Invoke k) = 2 * (k div w)"
| "stage w (AllSettled []) = 0"
| "stage w (AllSettled ((k, result) # results)) = 2 * (k div w) + 1"

section \<open>Sample suites and collaborators\<close>

text \<open>Collaborators none of which throws; the clock advances by five at each read.\<close>

definition quiet :: env where
  "quiet = \<lparr>emit = (\<lambda>ev r. None), startDriver = (\<lambda>i. None),
            destroyDriver = (\<lambda>i again. None), saveScreenshot = (\<lambda>i p. None),
            now = (\<lambda>k. 1000 + 5 * int k),
            convertTimeMillisToPrettyString = (\<lambda>ms. if ms = 0 then ''0 ms'' else ''some ms''),
            ssPath = (\<lambda>t. if t = 1010 then ''/logs/1010.png'' else ''/logs/other.png'')\<rparr>"

text \<open>As \<open>E\<close>, but the listeners of the event kind \<open>ev\<close> throw \<open>v\<close>.\<close>

definition hookThrows :: "EventType \<Rightarrow> thrown \<Rightarrow> env \<Rightarrow> env" where
  "hookThrows ev v E = E\<lparr>emit := (\<lambda>ev' r. if ev' = ev then Some v else emit E ev' r)\<rparr>"

text \<open>As \<open>E\<close>, but saving a screenshot throws \<open>v\<close>.\<close>

definition shotThrows :: "thrown \<Rightarrow> env \<Rightarrow> env" where
  "shotThrows v E = E\<lparr>saveScreenshot := (\<lambda>i p. Some v)\<rparr>"

definition newCase :: "string \<Rightarrow> bool \<Rightarrow> outcome \<Rightarrow> TestCase" where
  "newCase n en body =
     \<lparr>status = PENDING, startTime = 0, endTime = 0, duration = [], caseId = n, caseName = n,
      enabled = en, caseMethod = (\<lambda>driver. body), exception = None, screenshot = None\<rparr>"

definition newRunner :: "TestCase list \<Rightarrow> Runner" where
  "newRunner cs =
     \<lparr>status = NOT_STARTED, startTime = 0, endTime = 0, duration = [], testCases = cs,
      currentTestCaseIndex = 0\<rparr>"

definition passingSuite :: Runner where
  "passingSuite = newRunner [newCase ''login'' True None]"

definition failingSuite :: Runner where
  "failingSuite = newRunner [newCase ''search'' True (Some (Error ''not found'' ''at search''))]"

definition stringThrowingSuite :: Runner where
  "stringThrowingSuite = newRunner [newCase ''upload'' True (Some (NonError ''boom''))]"

definition legacySuite :: Runner where
  "legacySuite = newRunner [newCase ''legacy'' False None]"

definition fileOf :: "int \<Rightarrow> env \<Rightarrow> Runner \<Rightarrow> suiteFile" where
  "fileOf w E r = \<lparr>config = \<lparr>parallelExecution = w\<rparr>, collaborators = E, currentRunner = r\<rparr>"

definition threeFiles :: "suiteFile list" where
  "threeFiles = [fileOf 3 quiet passingSuite, fileOf 1 quiet stringThrowingSuite,
                 fileOf 2 quiet failingSuite]"

text \<open>Two files, the last of which asks for a width of zero.\<close>

definition idleFiles :: "suiteFile list" where
  "idleFiles = [fileOf 2 quiet passingSuite, fileOf 0 quiet failingSuite]"

text \<open>As \<open>E\<close>, but a driver that was destroyed before rejects being destroyed again.\<close>

definition strictDriver :: "env \<Rightarrow> env" where
  "strictDriver E =
     E\<lparr>destroyDriver := (\<lambda>i again. if again then Some (Error ''no session'' ''at quit'')
                                      else destroyDriver E i again)\<rparr>"

text \<open>As \<open>E\<close>, but destroying a driver is rejected with \<open>v\<close>.\<close>

definition releaseThrows :: "thrown \<Rightarrow> env \<Rightarrow> env" where
  "releaseThrows v E = E\<lparr>destroyDriver := (\<lambda>i again. Some v)\<rparr>"


section \<open>Basic facts about the state\<close>

lemma act_simps [simp]:
  "runner (act a s) = runner s" "trace (act a s) = trace s @ [a]"
  "ticks (act a s) = ticks s" "snaps (act a s) = snaps s" "destroyed (act a s) = destroyed s"
  by (simp_all add: act_def)

lemma mutate_simps [simp]:
  "runner (mutate f s) = f (runner s)" "trace (mutate f s) = trace s"
  "ticks (mutate f s) = ticks s" "snaps (mutate f s) = snaps s @ [f (runner s)]"
  "destroyed (mutate f s) = destroyed s"
  by (simp_all add: mutate_def)

lemma tick_simps [simp]:
  "fst (tick E s) = now E (ticks s)"
  "runner (snd (tick E s)) = runner s" "trace (snd (tick E s)) = trace s"
  "ticks (snd (tick E s)) = Suc (ticks s)" "snaps (snd (tick E s)) = snaps s"
  "destroyed (snd (tick E s)) = destroyed s"
  by (simp_all add: tick_def)

lemma release_simps [simp]:
  "runner (fst (release E i s)) = runner s"
  "trace (fst (release E i s)) = trace s @ [DestroyDriver i]"
  "ticks (fst (release E i s)) = ticks s" "snaps (fst (release E i s)) = snaps s"
  "destroyed (fst (release E i s)) = True"
  "snd (release E i s) = destroyDriver E i (destroyed s)"
  by (simp_all add: release_def)

lemma assertIsError_simps [simp]:
  "assertIsError (Error m st) = None" "assertIsError (NonError x) = Some (NonError x)"
  by (simp_all add: assertIsError_def)

lemma onCurrentCase_simps [simp]:
  "status (onCurrentCase f r) = status r"
  "currentTestCaseIndex (onCurrentCase f r) = currentTestCaseIndex r"
  "length (testCases (onCurrentCase f r)) = length (testCases r)"
  "i \<noteq> currentTestCaseIndex r \<Longrightarrow> testCases (onCurrentCase f r) ! i = testCases r ! i"
  by (simp_all add: onCurrentCase_def currentCase_def)

lemma timing_simps [simp]:
  "status (startNow t r) = RUNNING" "status (endNow t r) = status r"
  "status (generateDuration p r) = status r"
  by (simp_all add: startNow_def endNow_def generateDuration_def)

lemmas sample_defs = quiet_def hookThrows_def shotThrows_def newCase_def
  newRunner_def passingSuite_def failingSuite_def stringThrowingSuite_def legacySuite_def
  initial_def

lemmas run_defs = runnerMain_def afterSuite_def execCase_def beforeCaseAndBody_def runBody_def
  bodyFailed_def takeScreenshot_def afterCase_def release_def act_def mutate_def tick_def
  assertIsError_def errorText_def disabledText_def onCurrentCase_def currentCase_def
  startNow_def endNow_def generateDuration_def Let_def

section \<open>A failed Runner stays failed\<close>

lemma neverReverted_snoc:
  "neverReverted (rs @ [r]) \<longleftrightarrow>
     neverReverted rs \<and> (\<forall>r' \<in> set rs. status r' = FAILED \<longrightarrow> status r = FAILED)"
  by (induction rs) auto

lemma neverReverted_last:
  "neverReverted rs \<Longrightarrow> r \<in> set rs \<Longrightarrow> status r = FAILED \<Longrightarrow> status (last rs) = FAILED"
  by (induction rs) auto

lemma neverReverted_nth:
  "neverReverted rs \<Longrightarrow> i \<le> j \<Longrightarrow> j < length rs \<Longrightarrow> status (rs ! i) = FAILED \<Longrightarrow>
     status (rs ! j) = FAILED"
proof (induction rs arbitrary: i j)
  case Nil
  then show ?case by simp
next
  case (Cons r rs)
  show ?case
  proof (cases i)
    case 0
    then show ?thesis using Cons.prems by (cases j) simp_all
  next
    case (Suc i')
    with Cons.prems obtain j' where "j = Suc j'" by (cases j) auto
    with Suc Cons show ?thesis by simp
  qed
qed

lemma advances_refl: "advances s s"
  by (simp add: advances_def)

lemma advances_same:
  "advances s t \<Longrightarrow> runner t' = runner t \<Longrightarrow> snaps t' = snaps t \<Longrightarrow> advances s t'"
  by (simp add: advances_def)

lemma advances_mutate:
  assumes "advances s t" and "status (runner t) = FAILED \<longrightarrow> status (f (runner t)) = FAILED"
  shows "advances s (mutate f t)"
proof -
  from assms(1) obtain more where m: "snaps t = snaps s @ more"
    "neverReverted (runner s # more)" "runner t = last (runner s # more)"
    by (auto simp: advances_def)
  have "\<forall>r' \<in> set (runner s # more). status r' = FAILED \<longrightarrow> status (f (runner t)) = FAILED"
    using neverReverted_last [OF m(2)] m(3) assms(2) by auto
  then have "neverReverted ((runner s # more) @ [f (runner t)])"
    using m(2) by (subst neverReverted_snoc) blast
  then show ?thesis
    unfolding advances_def using m(1)
    by (intro exI [of _ "more @ [f (runner t)]"]) simp
qed

lemma advances_sticky:
  "advances s s' \<Longrightarrow> status (runner s) = FAILED \<Longrightarrow> status (runner s') = FAILED"
  unfolding advances_def using neverReverted_last by fastforce

lemma advances_act: "advances s t \<Longrightarrow> advances s (act a t)"
  by (erule advances_same) simp_all

lemma advances_tick: "advances s t \<Longrightarrow> advances s (snd (tick E t))"
  by (erule advances_same) simp_all

lemma advances_release: "advances s t \<Longrightarrow> advances s (fst (release E i t))"
  by (erule advances_same) simp_all

lemma advances_destroyed: "advances s t \<Longrightarrow> advances s (t\<lparr>destroyed := b\<rparr>)"
  by (erule advances_same) simp_all

lemmas advances_prims =
  advances_mutate advances_act advances_tick advances_release advances_destroyed

lemma advances_takeScreenshot:
  "advances s t \<Longrightarrow> advances s (fst (takeScreenshot E i n t))"
  by (auto simp: takeScreenshot_def Let_def split: option.splits intro!: advances_prims)

lemma advances_bodyFailed:
  "advances s t \<Longrightarrow> advances s (fst (bodyFailed E i e t))"
  by (auto simp: bodyFailed_def Let_def split_beta split: option.splits
        intro!: advances_prims advances_takeScreenshot)

lemma advances_runBody:
  "advances s t \<Longrightarrow> advances s (fst (runBody E i t))"
  by (auto simp: runBody_def Let_def split_beta split: option.splits
        intro!: advances_prims advances_bodyFailed)

lemma advances_beforeCaseAndBody:
  "advances s t \<Longrightarrow> advances s (fst (beforeCaseAndBody E i t))"
  by (auto simp: beforeCaseAndBody_def Let_def split_beta split: option.splits
        intro!: advances_prims advances_runBody)

lemma advances_afterCase:
  "advances s t \<Longrightarrow> advances s (fst (afterCase E t))"
  by (auto simp: afterCase_def Let_def split_beta split: option.splits
        intro!: advances_prims)

lemma advances_execCase:
  "advances s t \<Longrightarrow> advances s (fst (execCase E i t))"
  by (auto simp: execCase_def Let_def split_beta split: option.splits
        intro!: advances_prims advances_afterCase advances_beforeCaseAndBody)

lemma advances_runCases:
  "advances s t \<Longrightarrow> advances s (fst (runCases E js t))"
  by (induction js arbitrary: t)
     (auto simp: split_beta split: option.splits intro!: advances_execCase)

lemma advances_afterSuite:
  "advances s t \<Longrightarrow> advances s (fst (afterSuite E t))"
  by (auto simp: afterSuite_def Let_def split_beta split: option.splits
        intro!: advances_prims)

text \<open>From the first statement of the executor on, a \<open>FAILED\<close> of the Runner stays.\<close>

lemma advances_runnerMain:
  "advances (mutate (startNow (now E (ticks s))) (snd (tick E s))) (fst (runnerMain E s))"
  by (auto simp: runnerMain_def Let_def split_beta split: option.splits
        intro!: advances_prims advances_afterSuite advances_runCases advances_refl)

lemma neverReverted_history: "neverReverted (history E r)"
  using advances_runnerMain [of E "initial r"]
  by (auto simp: advances_def history_def initial_def)

text \<open>
  C9. In every suite run, once an assignment has left the status of the Runner \<open>FAILED\<close>,
  whichever statement of the executor made it, the status is \<open>FAILED\<close> after every later
  assignment of the run, up to its end: no later step sets it to \<open>SUCCESS\<close> or to any other
  status.
\<close>

theorem runner_failed_never_reverted:
  assumes "i \<le> j" and "j < length (history E r)" and "status (history E r ! i) = FAILED"
  shows "status (history E r ! j) = FAILED \<and> status (history E r ! j) \<noteq> SUCCESS"
  using neverReverted_nth [OF neverReverted_history assms] by simp

theorem runner_failed_never_reverted_witness:
  "(8::nat) \<le> 10 \<and> 10 < length (history quiet failingSuite) \<and>
   status (history quiet failingSuite ! 7) = RUNNING \<and>
   status (history quiet failingSuite ! 8) = FAILED \<and>
   status (history quiet failingSuite ! 10) = FAILED \<and>
   status (history quiet failingSuite ! 10) \<noteq> SUCCESS"
proof -
  have h: "map status (history quiet failingSuite) =
      [RUNNING, RUNNING, RUNNING, RUNNING, RUNNING, RUNNING, RUNNING, RUNNING,
       FAILED, FAILED, FAILED]"
    by (simp add: sample_defs run_defs history_def)
  have len: "length (history quiet failingSuite) = 11"
    using arg_cong [OF h, of length] by simp
  have a: "(8::nat) \<le> 10" by simp
  have b: "10 < length (history quiet failingSuite)" using len by simp
  have "map status (history quiet failingSuite) ! 8 = FAILED" by (simp add: h)
  then have c: "status (history quiet failingSuite ! 8) = FAILED" using len by simp
  have "map status (history quiet failingSuite) ! 7 = RUNNING" by (simp add: h)
  then have d: "status (history quiet failingSuite ! 7) = RUNNING" using len by simp
  show ?thesis
    using runner_failed_never_reverted [OF a b c] a b c d by simp
qed

section \<open>A failing \<^verbatim>\<open>BEFORE_SUITE\<close> hook\<close>

text \<open>
  C1, as amended. When the emission of \<^verbatim>\<open>BEFORE_SUITE\<close> throws an Error, the executor
  logs it, records the end time and the duration of the Runner and is fulfilled; it does not
  mark the Runner \<open>FAILED\<close>; no test case record changes, no driver is started and no body
  runs, and \<^verbatim>\<open>AFTER_SUITE\<close> is not emitted: the two actions listed are all it performs.
  When the emission throws a value that is not an Error, \<^verbatim>\<open>assertIsError\<close> throws it
  again: the executor is rejected with it at once, and neither the end time nor the duration
  is recorded.
\<close>

theorem beforeSuite_thrown_aborts:
  assumes "emit E BEFORE_SUITE (startNow (now E (ticks s)) (runner s)) = Some v"
  shows "performed s (fst (runnerMain E s)) =
           Emit BEFORE_SUITE (currentTestCaseIndex (runner s)) #
             (case v of Error m st \<Rightarrow> [Log ERROR (errorText v)] | NonError x \<Rightarrow> []) \<and>
         snd (runnerMain E s) = (case v of Error m st \<Rightarrow> None | NonError x \<Rightarrow> Some v) \<and>
         status (runner (fst (runnerMain E s))) \<noteq> FAILED \<and>
         testCases (runner (fst (runnerMain E s))) = testCases (runner s) \<and>
         startTime (runner (fst (runnerMain E s))) = now E (ticks s) \<and>
         endTime (runner (fst (runnerMain E s))) =
           (case v of Error m st \<Rightarrow> now E (Suc (ticks s)) | NonError x \<Rightarrow> endTime (runner s)) \<and>
         duration (runner (fst (runnerMain E s))) =
           (case v of
              Error m st \<Rightarrow>
                convertTimeMillisToPrettyString E (now E (Suc (ticks s)) - now E (ticks s))
            | NonError x \<Rightarrow> duration (runner s))"
  using assms
  by (cases v)
     (simp_all add: runnerMain_def performed_def split_beta Let_def startNow_def endNow_def
        generateDuration_def)

theorem beforeSuite_thrown_aborts_witness:
  "emit (hookThrows BEFORE_SUITE (Error ''no grid'' ''at listener'') quiet) BEFORE_SUITE
     (startNow (now (hookThrows BEFORE_SUITE (Error ''no grid'' ''at listener'') quiet)
        (ticks (initial failingSuite))) (runner (initial failingSuite)))
     = Some (Error ''no grid'' ''at listener'') \<and>
   performed (initial failingSuite)
     (fst (runnerMain (hookThrows BEFORE_SUITE (Error ''no grid'' ''at listener'') quiet)
        (initial failingSuite)))
     = [Emit BEFORE_SUITE 0, Log ERROR (''no grid'' @ [CHR 0x0A] @ ''at listener'')] \<and>
   snd (runnerMain (hookThrows BEFORE_SUITE (Error ''no grid'' ''at listener'') quiet)
        (initial failingSuite)) = None \<and>
   status (runner (fst (runnerMain (hookThrows BEFORE_SUITE (Error ''no grid'' ''at listener'') quiet)
        (initial failingSuite)))) \<noteq> FAILED \<and>
   endTime (runner (fst (runnerMain (hookThrows BEFORE_SUITE (Error ''no grid'' ''at listener'') quiet)
        (initial failingSuite)))) = 1005"
  using beforeSuite_thrown_aborts [of "hookThrows BEFORE_SUITE (Error ''no grid'' ''at listener'') quiet"
      "initial failingSuite" "Error ''no grid'' ''at listener''"]
  by (simp add: sample_defs errorText_def)

text \<open>
  The claim as stated fails: after an Error thrown by \<^verbatim>\<open>BEFORE_SUITE\<close> the Runner is
  \<open>RUNNING\<close>, not \<open>FAILED\<close>, and after a thrown string the end time is not recorded and
  the executor is rejected.
\<close>

theorem beforeSuite_failure_counterexample:
  "emit (hookThrows BEFORE_SUITE (Error ''no grid'' ''at listener'') quiet) BEFORE_SUITE
     (startNow 1000 failingSuite) = Some (Error ''no grid'' ''at listener'') \<and>
   status (runner (fst (runnerMain (hookThrows BEFORE_SUITE (Error ''no grid'' ''at listener'') quiet)
     (initial failingSuite)))) = RUNNING \<and>
   status (runner (fst (runnerMain (hookThrows BEFORE_SUITE (Error ''no grid'' ''at listener'') quiet)
     (initial failingSuite)))) \<noteq> FAILED \<and>
   snd (runnerMain (hookThrows BEFORE_SUITE (NonError ''no grid'') quiet) (initial failingSuite))
     = Some (NonError ''no grid'') \<and>
   endTime (runner (fst (runnerMain (hookThrows BEFORE_SUITE (NonError ''no grid'') quiet)
     (initial failingSuite)))) = 0"
  by (simp add: sample_defs run_defs)

section \<open>A disabled test case\<close>

text \<open>
  C4, as amended. For a disabled test case the executor acquires no driver handle and emits
  neither \<^verbatim>\<open>BEFORE_CASE\<close> nor \<^verbatim>\<open>AFTER_CASE\<close>: all it does is move the cursor of the
  Runner to the case and log a line at level info. It assigns nothing to the record of the
  case, whose status stays what it was (it is not set to \<open>SKIPPED\<close>).
\<close>

theorem disabled_case_only_logged:
  assumes "\<not> enabled (testCases (runner s) ! index)"
  shows "performed s (fst (execCase E index s)) =
           [Log INFO (disabledText (testCases (runner s) ! index))] \<and>
         snd (execCase E index s) = None \<and>
         runner (fst (execCase E index s)) = (runner s)\<lparr>currentTestCaseIndex := index\<rparr> \<and>
         status (testCases (runner (fst (execCase E index s))) ! index) =
           status (testCases (runner s) ! index)"
  using assms by (simp add: execCase_def currentCase_def performed_def)

theorem disabled_case_only_logged_witness:
  "\<not> enabled (testCases (runner (initial legacySuite)) ! 0) \<and>
   performed (initial legacySuite) (fst (execCase quiet 0 (initial legacySuite))) =
     [Log INFO ''Test legacy [legacy] is disabled! Skipping test execution...''] \<and>
   snd (execCase quiet 0 (initial legacySuite)) = None \<and>
   status (testCases (runner (fst (execCase quiet 0 (initial legacySuite)))) ! 0) = PENDING"
  using disabled_case_only_logged [of "initial legacySuite" 0 quiet]
  by (simp add: sample_defs disabledText_def)

text \<open>
  The claim as stated fails: after the whole run of a suite whose only case is disabled and
  pending, the status of the case is still \<open>PENDING\<close>, not \<open>SKIPPED\<close>.
\<close>

theorem disabled_case_counterexample:
  "\<not> enabled (testCases legacySuite ! 0) \<and>
   snd (runnerMain quiet (initial legacySuite)) = None \<and>
   status (testCases (runner (fst (runnerMain quiet (initial legacySuite)))) ! 0) = PENDING \<and>
   status (testCases (runner (fst (runnerMain quiet (initial legacySuite)))) ! 0) \<noteq> SKIPPED"
  by (simp add: sample_defs run_defs)

section \<open>The scheduler\<close>

lemma slice_enumerate:
  assumes "i \<le> length xs" and "0 < w"
  shows "slice (enumerate 0 xs) (int i) (int i + int w) =
           zip [i..<min (i + w) (length xs)] (take w (drop i xs))"
proof -
  let ?m = "min (i + w) (length xs) - i"
  have n: "nat (min (int i + int w) (int (length xs)) - int i) = ?m"
    using assms by (auto simp: min_def)
  have "take ?m (drop i (enumerate 0 xs)) = zip (take ?m [i..<length xs]) (take ?m (drop i xs))"
    by (simp add: enumerate_eq_zip drop_zip take_zip)
  moreover have "take ?m [i..<length xs] = [i..<min (i + w) (length xs)]"
    using assms by (cases "i + w \<le> length xs") (simp_all add: min_def)
  moreover have "take ?m (drop i xs) = take w (drop i xs)"
    using assms by (cases "i + w \<le> length xs") (simp_all add: min_def)
  ultimately show ?thesis
    using assms n by (simp add: slice_def Let_def)
qed

declare consecutiveSlices.simps [simp del]

lemma consecutiveSlices_Nil: "consecutiveSlices w [] = []"
  by (simp add: consecutiveSlices.simps)

lemma consecutiveSlices_upt:
  "0 < w \<Longrightarrow> i < n \<Longrightarrow>
     consecutiveSlices w [i..<n] = [i..<min (i + w) n] # consecutiveSlices w [i + w..<n]"
  by (subst consecutiveSlices.simps) (auto simp: take_upt min_def drop_upt)

lemma runSlice_zip:
  assumes "length ks = length rs" and "\<forall>j < length ks. rs ! j = runners ! (ks ! j)"
  shows "runSlice (zip ks rs) log =
           \<lparr>slices = slices log @ [ks], events = events log @ sliceEvents runners ks,
             console = console log @ sliceRejections runners ks\<rparr>"
proof -
  have r: "map (\<lambda>(k, runner). (k, runner ())) (zip ks rs) = map (\<lambda>k. (k, (runners ! k) ())) ks"
    using assms by (auto simp: list_eq_iff_nth_eq)
  have i: "map (\<lambda>(k, runner). Invoke k) (zip ks rs) = map Invoke ks"
    using assms by (auto simp: list_eq_iff_nth_eq)
  have f: "map fst (zip ks rs) = ks"
    using assms by simp
  show ?thesis
    by (simp add: runSlice_def Let_def r i f sliceEvents_def sliceRejections_def comp_def)
qed

text \<open>For a width of at least one the loop ends, with the spec's partition.\<close>

lemma schedule_from:
  assumes "0 < w"
  shows "schedule (int w) runners (int i) log =
           Some \<lparr>slices = slices log @ consecutiveSlices w [i..<length runners],
                 events = events log @
                   concat (map (sliceEvents runners) (consecutiveSlices w [i..<length runners])),
                 console = console log @
                   concat (map (sliceRejections runners)
                     (consecutiveSlices w [i..<length runners]))\<rparr>"
proof (induction "length runners - i" arbitrary: i log rule: less_induct)
  case less
  show ?case
  proof (cases "i < length runners")
    case False
    then show ?thesis
      by (subst schedule.simps) (simp add: consecutiveSlices_Nil)
  next
    case True
    let ?ks = "[i..<min (i + w) (length runners)]"
    have sl: "slice (enumerate 0 runners) (int i) (int i + int w) =
                zip ?ks (take w (drop i runners))"
      using True assms by (intro slice_enumerate) simp_all
    have rs: "runSlice (zip ?ks (take w (drop i runners))) log =
           \<lparr>slices = slices log @ [?ks], events = events log @ sliceEvents runners ?ks,
             console = console log @ sliceRejections runners ?ks\<rparr>"
      using True by (intro runSlice_zip) (auto simp: min_def)
    have "length runners - (i + w) < length runners - i"
      using True assms by simp
    from less [OF this]
    have IH: "\<And>log. schedule (int w) runners (int i + int w) log =
       Some \<lparr>slices = slices log @ consecutiveSlices w [i + w..<length runners],
             events = events log @
               concat (map (sliceEvents runners) (consecutiveSlices w [i + w..<length runners])),
             console = console log @
               concat (map (sliceRejections runners)
                 (consecutiveSlices w [i + w..<length runners]))\<rparr>"
      by simp
    have "schedule (int w) runners (int i) log =
            schedule (int w) runners (int i + int w)
              (runSlice (slice (enumerate 0 runners) (int i) (int i + int w)) log)"
      using True by (subst schedule.simps) simp
    then show ?thesis
      using True assms by (simp add: sl rs IH consecutiveSlices_upt)
  qed
qed

lemma length_consecutiveSlices:
  "0 < w \<Longrightarrow> length (consecutiveSlices w xs) = (length xs + w - 1) div w"
proof (induction w xs rule: consecutiveSlices.induct)
  case (1 w xs)
  show ?case
  proof (cases "xs = []")
    case True
    then show ?thesis using 1 by (simp add: consecutiveSlices.simps)
  next
    case False
    then have len: "0 < length xs" by simp
    have IH: "length (consecutiveSlices w (drop w xs)) = (length xs - w + w - 1) div w"
      using 1 False by simp
    show ?thesis
    proof (cases "w \<le> length xs")
      case True
      then have "(length xs + w - 1) div w = Suc ((length xs - 1) div w)"
        using 1(2) len
        by (metis Nat.add_diff_assoc2 One_nat_def Suc_leI div_add_self2 less_numeral_extra(3)
              Suc_eq_plus1)
      with True IH False 1(2) show ?thesis
        by (subst consecutiveSlices.simps) simp
    next
      case False
      then have "drop w xs = []" by simp
      moreover have "(length xs + w - 1) div w = 1"
      proof (rule div_nat_eqI)
        show "w * 1 \<le> length xs + w - 1" using len by arith
        show "length xs + w - 1 < w * Suc 1" using False 1(2) by simp
      qed
      ultimately show ?thesis
        using \<open>xs \<noteq> []\<close> 1(2)
        by (subst consecutiveSlices.simps) (simp add: consecutiveSlices_Nil)
    qed
  qed
qed

lemma concat_consecutiveSlices: "0 < w \<Longrightarrow> concat (consecutiveSlices w xs) = xs"
proof (induction w xs rule: consecutiveSlices.induct)
  case (1 w xs)
  then show ?case by (subst consecutiveSlices.simps) auto
qed

lemma consecutiveSlices_member:
  "b \<in> set (consecutiveSlices w xs) \<Longrightarrow> length b \<le> w \<and> b \<noteq> []"
proof (induction w xs rule: consecutiveSlices.induct)
  case (1 w xs)
  from 1(2) have "\<not> (w = 0 \<or> xs = [])"
    and "b = take w xs \<or> b \<in> set (consecutiveSlices w (drop w xs))"
    by (subst (asm) consecutiveSlices.simps; simp split: if_splits; blast)+
  then show ?case
    using 1(1) by auto
qed

lemma consecutiveSlices_upt_nth:
  "0 < w \<Longrightarrow> b < length (consecutiveSlices w [i..<n]) \<Longrightarrow>
     consecutiveSlices w [i..<n] ! b = [i + b * w..<min (i + b * w + w) n]"
proof (induction b arbitrary: i)
  case 0
  then have "i < n" by (cases "i < n") (simp_all add: consecutiveSlices_Nil)
  with 0 show ?case by (simp add: consecutiveSlices_upt)
next
  case (Suc b)
  then have "i < n" by (cases "i < n") (simp_all add: consecutiveSlices_Nil)
  with Suc show ?case
    by (simp add: consecutiveSlices_upt add.assoc add.commute add.left_commute)
qed

lemma invoked_append [simp]: "invoked (xs @ ys) = invoked xs @ invoked ys"
  by (induction xs rule: invoked.induct) simp_all

lemma awaited_append [simp]: "awaited (xs @ ys) = awaited xs @ awaited ys"
  by (induction xs rule: awaited.induct) simp_all

lemma invoked_sliceEvents [simp]: "invoked (sliceEvents runners b) = b"
proof -
  have "invoked (map Invoke b) = b" by (induction b) simp_all
  then show ?thesis by (simp add: sliceEvents_def)
qed

lemma awaited_sliceEvents [simp]:
  "awaited (sliceEvents runners b) = map (\<lambda>k. (k, (runners ! k) ())) b"
proof -
  have "awaited (map Invoke b) = []" by (induction b) simp_all
  then show ?thesis by (simp add: sliceEvents_def)
qed

lemma invoked_concat: "invoked (concat (map (sliceEvents runners) bs)) = concat bs"
  by (induction bs) simp_all

lemma awaited_concat:
  "awaited (concat (map (sliceEvents runners) bs)) =
     map (\<lambda>k. (k, (runners ! k) ())) (concat bs)"
  by (induction bs) simp_all

lemma rejections_append [simp]: "rejections (xs @ ys) = rejections xs @ rejections ys"
  by (simp add: rejections_def)

lemma rejections_filter:
  "rejections results = map the (filter (\<lambda>result. result \<noteq> None) results)"
  by (induction results) (auto simp: rejections_def)

lemma sliceRejections_concat:
  "concat (map (sliceRejections runners) bs) = rejections (map (\<lambda>k. (runners ! k) ()) (concat bs))"
  by (induction bs) (simp_all add: sliceRejections_def rejections_def)

text \<open>
  The events of slices that follow one another come in stages, and the return of
  \<^verbatim>\<open>allSettled\<close> on a slice is at the stage after the invocations of its members.
\<close>

lemma stages_sorted:
  assumes "\<forall>b < length bs. bs ! b \<noteq> [] \<and> (\<forall>k \<in> set (bs ! b). k div w = c + b)"
  shows "sorted (map (stage w) (concat (map (sliceEvents runners) bs))) \<and>
         (\<forall>e \<in> set (concat (map (sliceEvents runners) bs)). 2 * c \<le> stage w e) \<and>
         (\<forall>rs k. AllSettled rs \<in> set (concat (map (sliceEvents runners) bs)) \<and>
                   k \<in> fst ` set rs \<longrightarrow> stage w (AllSettled rs) = 2 * (k div w) + 1)"
  using assms
proof (induction bs arbitrary: c)
  case Nil
  then show ?case by simp
next
  case (Cons x bs)
  have x: "\<forall>k \<in> set x. k div w = c" and ne: "x \<noteq> []"
    using Cons.prems by (auto dest: spec [of _ 0])
  have "\<forall>b < length bs. bs ! b \<noteq> [] \<and> (\<forall>k \<in> set (bs ! b). k div w = Suc c + b)"
    using Cons.prems by (auto dest: spec [of _ "Suc b" for b])
  from Cons.IH [OF this]
  have IH: "sorted (map (stage w) (concat (map (sliceEvents runners) bs)))"
    "\<forall>e \<in> set (concat (map (sliceEvents runners) bs)). 2 * Suc c \<le> stage w e"
    "\<forall>rs k. AllSettled rs \<in> set (concat (map (sliceEvents runners) bs)) \<and>
             k \<in> fst ` set rs \<longrightarrow> stage w (AllSettled rs) = 2 * (k div w) + 1"
    by simp_all
  from ne obtain k0 rest where x0: "x = k0 # rest" by (cases x) auto
  have ret: "stage w (AllSettled (map (\<lambda>k. (k, (runners ! k) ())) x)) = 2 * c + 1"
    using x by (simp add: x0)
  have here: "map (stage w) (sliceEvents runners x) = replicate (length x) (2 * c) @ [2 * c + 1]"
    using x ret by (auto simp: sliceEvents_def list_eq_iff_nth_eq nth_append)
  have s: "sorted (map (stage w) (sliceEvents runners x))"
    unfolding here by (simp add: sorted_append)
  have bounds: "\<forall>e \<in> set (sliceEvents runners x). stage w e \<le> 2 * c + 1 \<and> 2 * c \<le> stage w e"
    using x ret by (auto simp: sliceEvents_def)
  have mine: "\<forall>rs k. AllSettled rs \<in> set (sliceEvents runners x) \<and> k \<in> fst ` set rs
                \<longrightarrow> stage w (AllSettled rs) = 2 * (k div w) + 1"
    using x ret by (auto simp: sliceEvents_def)
  have "sorted (map (stage w) (concat (map (sliceEvents runners) (x # bs))))"
    using s bounds IH(1,2) by (fastforce simp: sorted_append)
  moreover have "\<forall>e \<in> set (concat (map (sliceEvents runners) (x # bs))). 2 * c \<le> stage w e"
    using bounds IH(2) by fastforce
  moreover have "\<forall>rs k. AllSettled rs \<in> set (concat (map (sliceEvents runners) (x # bs))) \<and>
             k \<in> fst ` set rs \<longrightarrow> stage w (AllSettled rs) = 2 * (k div w) + 1"
  proof (intro allI impI, elim conjE)
    fix rs k
    assume "AllSettled rs \<in> set (concat (map (sliceEvents runners) (x # bs)))"
      and k: "k \<in> fst ` set rs"
    then have "AllSettled rs \<in> set (sliceEvents runners x) \<or>
               AllSettled rs \<in> set (concat (map (sliceEvents runners) bs))"
      by simp
    with k mine IH(3) show "stage w (AllSettled rs) = 2 * (k div w) + 1"
      by blast
  qed
  ultimately show ?case by blast
qed

text \<open>
  What the scheduler loop does with a width of at least one; with a smaller width it does
  not end.
\<close>

lemma schedule_characterised:
  assumes "1 \<le> w"
  shows "\<exists>log. schedule w runners 0 emptyLog = Some log \<and>
           int (length (slices log)) = (int (length runners) + w - 1) div w \<and>
           (\<forall>b < length (slices log).
              slices log ! b = [b * nat w..<min (b * nat w + nat w) (length runners)] \<and>
              length (slices log ! b) \<le> nat w) \<and>
           concat (slices log) = [0..<length runners] \<and>
           invoked (events log) = [0..<length runners] \<and>
           awaited (events log) = map (\<lambda>k. (k, (runners ! k) ())) [0..<length runners] \<and>
           (\<forall>p q k k' results.
              p < length (events log) \<and> q < length (events log) \<and>
              events log ! p = Invoke k' \<and> events log ! q = AllSettled results \<and>
              k \<in> fst ` set results \<and> k div nat w < k' div nat w \<longrightarrow> q < p) \<and>
           console log =
             map the (filter (\<lambda>result. result \<noteq> None) (map (\<lambda>runner. runner ()) runners))"
proof -
  define v where "v = nat w"
  define bs where "bs = consecutiveSlices v [0..<length runners]"
  define log where "log = \<lparr>slices = bs,
      events = concat (map (sliceEvents runners) bs),
      console = concat (map (sliceRejections runners) bs)\<rparr>"
  have v: "0 < v" "int v = w" using assms by (simp_all add: v_def)
  have sl: "slices log = bs" by (simp add: log_def)
  have run: "schedule w runners 0 emptyLog = Some log"
    using schedule_from [OF v(1), of runners 0 emptyLog] v(2)
    by (simp add: log_def bs_def emptyLog_def)
  have cc: "concat bs = [0..<length runners]"
    by (simp add: bs_def concat_consecutiveSlices v(1))
  have "length bs = (length runners + v - 1) div v"
    by (simp add: bs_def length_consecutiveSlices v(1))
  then have "int (length bs) = int ((length runners + v - 1) div v)" by simp
  also have "\<dots> = (int (length runners) + w - 1) div w"
    using v by (simp add: zdiv_int of_nat_diff)
  finally have count: "int (length bs) = (int (length runners) + w - 1) div w" .
  have nth: "bs ! b = [b * v..<min (b * v + v) (length runners)]" if "b < length bs" for b
    using consecutiveSlices_upt_nth [OF v(1), of b 0 "length runners"] that
    by (simp add: bs_def)
  have size: "length (bs ! b) \<le> v" and nonempty: "bs ! b \<noteq> []" if "b < length bs" for b
    using consecutiveSlices_member [of "bs ! b" v "[0..<length runners]"] that
    by (simp_all add: bs_def)
  have "\<forall>b < length bs. bs ! b \<noteq> [] \<and> (\<forall>k \<in> set (bs ! b). k div v = 0 + b)"
  proof (intro allI impI ballI conjI)
    fix b assume "b < length bs"
    then show "bs ! b \<noteq> []" by (rule nonempty)
  next
    fix b k assume "b < length bs" and "k \<in> set (bs ! b)"
    then have "b * v \<le> k" and "k < b * v + v" by (simp_all add: nth)
    then show "k div v = 0 + b"
      by (simp add: div_nat_eqI mult.commute)
  qed
  from stages_sorted [OF this, of runners]
  have sorted: "sorted (map (stage v) (events log))"
    and returns: "\<And>results k. AllSettled results \<in> set (events log) \<Longrightarrow> k \<in> fst ` set results
        \<Longrightarrow> stage v (AllSettled results) = 2 * (k div v) + 1"
    by (simp_all add: log_def)
  have barrier: "q < p"
    if "p < length (events log)" "q < length (events log)" "events log ! p = Invoke k'"
       "events log ! q = AllSettled results" "k \<in> fst ` set results" "k div v < k' div v"
    for p q k k' results
  proof (rule ccontr)
    assume "\<not> q < p"
    then have "p \<le> q" by simp
    then have le: "map (stage v) (events log) ! p \<le> map (stage v) (events log) ! q"
      using sorted that(2) by (simp add: sorted_iff_nth_mono del: nth_map)
    have "AllSettled results \<in> set (events log)"
      using that(2,4) nth_mem by fastforce
    from returns [OF this that(5)] le that show False by simp
  qed
  have "console log = rejections (map (\<lambda>k. (runners ! k) ()) [0..<length runners])"
    by (simp add: log_def sliceRejections_concat cc)
  also have "map (\<lambda>k. (runners ! k) ()) [0..<length runners] = map (\<lambda>runner. runner ()) runners"
    by (rule nth_equalityI) simp_all
  finally have printed: "console log =
      map the (filter (\<lambda>result. result \<noteq> None) (map (\<lambda>runner. runner ()) runners))"
    by (simp only: rejections_filter)
  have inv: "invoked (events log) = [0..<length runners]"
    by (simp add: log_def invoked_concat cc)
  have await: "awaited (events log) = map (\<lambda>k. (k, (runners ! k) ())) [0..<length runners]"
    by (simp add: log_def awaited_concat cc)
  have "schedule w runners 0 emptyLog = Some log \<and>
           int (length (slices log)) = (int (length runners) + w - 1) div w \<and>
           (\<forall>b < length (slices log).
              slices log ! b = [b * v..<min (b * v + v) (length runners)] \<and>
              length (slices log ! b) \<le> v) \<and>
           concat (slices log) = [0..<length runners] \<and>
           invoked (events log) = [0..<length runners] \<and>
           awaited (events log) = map (\<lambda>k. (k, (runners ! k) ())) [0..<length runners] \<and>
           (\<forall>p q k k' results.
              p < length (events log) \<and> q < length (events log) \<and>
              events log ! p = Invoke k' \<and> events log ! q = AllSettled results \<and>
              k \<in> fst ` set results \<and> k div v < k' div v \<longrightarrow> q < p) \<and>
           console log =
             map the (filter (\<lambda>result. result \<noteq> None) (map (\<lambda>runner. runner ()) runners))"
  proof (intro conjI)
    show "schedule w runners 0 emptyLog = Some log" by (rule run)
    show "int (length (slices log)) = (int (length runners) + w - 1) div w"
      unfolding sl by (rule count)
    show "\<forall>b < length (slices log).
              slices log ! b = [b * v..<min (b * v + v) (length runners)] \<and>
              length (slices log ! b) \<le> v"
      unfolding sl using nth size by blast
    show "concat (slices log) = [0..<length runners]" unfolding sl by (rule cc)
    show "invoked (events log) = [0..<length runners]" by (rule inv)
    show "awaited (events log) = map (\<lambda>k. (k, (runners ! k) ())) [0..<length runners]"
      by (rule await)
    show "\<forall>p q k k' results.
              p < length (events log) \<and> q < length (events log) \<and>
              events log ! p = Invoke k' \<and> events log ! q = AllSettled results \<and>
              k \<in> fst ` set results \<and> k div v < k' div v \<longrightarrow> q < p"
      using barrier by blast
    show "console log =
        map the (filter (\<lambda>result. result \<noteq> None) (map (\<lambda>runner. runner ()) runners))"
      by (rule printed)
  qed
  then show ?thesis
    unfolding v_def by (rule exI [of _ log])
qed

text \<open>With a width below one the loop has no result, whatever it has logged so far.\<close>

lemma schedule_narrow:
  assumes "schedule w runners i log = Some result"
  shows "\<not> (w < 1 \<and> i < int (length runners))"
proof (rule schedule.raw_induct
    [where P = "\<lambda>w runners i log result. \<not> (w < 1 \<and> i < int (length runners))", OF _ assms])
  fix schedule :: "int \<Rightarrow> (unit \<Rightarrow> outcome) list \<Rightarrow> int \<Rightarrow> schedule_log \<Rightarrow> schedule_log option"
    and w runners i log result
  assume IH: "\<And>w runners i log result. schedule w runners i log = Some result
      \<Longrightarrow> \<not> (w < 1 \<and> i < int (length runners))"
    and body: "(if i < int (length runners)
          then schedule w runners (i + w)
                 (runSlice (slice (enumerate 0 runners) i (i + w)) log)
          else Some log) = Some result"
  show "\<not> (w < 1 \<and> i < int (length runners))"
  proof (cases "i < int (length runners)")
    case False
    then show ?thesis by simp
  next
    case True
    with body have "schedule w runners (i + w)
        (runSlice (slice (enumerate 0 runners) i (i + w)) log) = Some result"
      by simp
    from IH [OF this] True show ?thesis by auto
  qed
qed

text \<open>
  C2. For every sequence of \<open>n\<close> executors and every width \<open>w\<close> of at least one, the
  scheduler loop ends and forms exactly \<open>ceil(n/w)\<close> slices (\<open>(n + w - 1) div w\<close>), the slice
  number \<open>b\<close> holding the executors at the positions from \<open>b * w\<close> up to \<open>b * w + w\<close> or \<open>n\<close>,
  so each of size at most \<open>w\<close>; each executor is invoked exactly once, and the result of each
  is awaited; an executor of a later slice is invoked only after \<^verbatim>\<open>allSettled\<close> has returned
  on every executor of an earlier slice, so after each of them has settled; and this holds
  whatever the outcomes are: a rejected executor stops neither the others of its slice nor
  the later slices, and what is printed are the reasons of the rejected ones.
\<close>

theorem scheduler_slices:
  assumes "1 \<le> w"
  shows "\<exists>log. schedule w runners 0 emptyLog = Some log \<and>
           int (length (slices log)) = (int (length runners) + w - 1) div w \<and>
           (\<forall>b < length (slices log).
              slices log ! b = [b * nat w..<min (b * nat w + nat w) (length runners)] \<and>
              length (slices log ! b) \<le> nat w) \<and>
           concat (slices log) = [0..<length runners] \<and>
           invoked (events log) = [0..<length runners] \<and>
           awaited (events log) = map (\<lambda>k. (k, (runners ! k) ())) [0..<length runners] \<and>
           (\<forall>p q k k' results.
              p < length (events log) \<and> q < length (events log) \<and>
              events log ! p = Invoke k' \<and> events log ! q = AllSettled results \<and>
              k \<in> fst ` set results \<and> k div nat w < k' div nat w \<longrightarrow> q < p) \<and>
           console log =
             map the (filter (\<lambda>result. result \<noteq> None) (map (\<lambda>runner. runner ()) runners))"
  using assms by (rule schedule_characterised)

lemma passingSuite_outcome: "snd (runnerMain quiet (initial passingSuite)) = None"
  by (simp add: sample_defs run_defs)

lemma failingSuite_outcome: "snd (runnerMain quiet (initial failingSuite)) = None"
  by (simp add: sample_defs run_defs)

lemma stringThrowingSuite_outcome:
  "snd (runnerMain quiet (initial stringThrowingSuite)) = Some (NonError ''boom'')"
  by (simp add: sample_defs run_defs)

lemma threeFiles_outcomes:
  "map (\<lambda>runner. runner ()) (map executor threeFiles) = [None, Some (NonError ''boom''), None]"
  by (simp add: threeFiles_def executor_def fileOf_def passingSuite_outcome
        failingSuite_outcome stringThrowingSuite_outcome)

lemma threeFiles_events:
  "schedule 2 (map executor threeFiles) 0 emptyLog =
     Some \<lparr>slices = [[0, 1], [2]],
           events = [Invoke 0, Invoke 1, AllSettled [(0, None), (1, Some (NonError ''boom''))],
                     Invoke 2, AllSettled [(2, None)]],
           console = [NonError ''boom'']\<rparr>"
proof -
  have n: "length (map executor threeFiles) = 3" by (simp add: threeFiles_def)
  have bs: "consecutiveSlices 2 [0..<3] = [[0, 1], [2]]"
    by (simp add: consecutiveSlices.simps upt_rec)
  have r: "map executor threeFiles ! 0 = (\<lambda>_. None)"
    "map executor threeFiles ! Suc 0 = (\<lambda>_. Some (NonError ''boom''))"
    "map executor threeFiles ! 2 = (\<lambda>_. None)"
    by (simp_all add: threeFiles_def executor_def fileOf_def passingSuite_outcome
          failingSuite_outcome stringThrowingSuite_outcome)
  have "schedule (int 2) (map executor threeFiles) (int 0) emptyLog =
      Some \<lparr>slices = slices emptyLog @ [[0, 1], [2]],
            events = events emptyLog @
              concat (map (sliceEvents (map executor threeFiles)) [[0, 1], [2]]),
            console = console emptyLog @
              concat (map (sliceRejections (map executor threeFiles)) [[0, 1], [2]])\<rparr>"
    using schedule_from [of 2 "map executor threeFiles" 0 emptyLog]
    unfolding n bs by simp
  then show ?thesis
    by (simp add: emptyLog_def sliceEvents_def sliceRejections_def rejections_def r)
qed

theorem scheduler_slices_witness:
  "(1::int) \<le> 2 \<and>
   (\<exists>log. schedule 2 (map executor threeFiles) 0 emptyLog = Some log \<and>
      slices log = [[0, 1], [2]] \<and>
      events log = [Invoke 0, Invoke 1, AllSettled [(0, None), (1, Some (NonError ''boom''))],
                    Invoke 2, AllSettled [(2, None)]] \<and>
      invoked (events log) = [0, 1, 2] \<and>
      awaited (events log) = [(0, None), (1, Some (NonError ''boom'')), (2, None)] \<and>
      console log = [NonError ''boom''])"
proof -
  have w: "(1::int) \<le> 2" by simp
  have n: "length (map executor threeFiles) = 3" by (simp add: threeFiles_def)
  from scheduler_slices [OF w, of "map executor threeFiles"]
  obtain log where log: "schedule 2 (map executor threeFiles) 0 emptyLog = Some log"
    and count: "int (length (slices log)) = (int (length (map executor threeFiles)) + 2 - 1) div 2"
    and nth: "\<forall>b < length (slices log).
        slices log ! b = [b * nat 2..<min (b * nat 2 + nat 2) (length (map executor threeFiles))]
        \<and> length (slices log ! b) \<le> nat 2"
    and inv: "invoked (events log) = [0..<length (map executor threeFiles)]"
    and await: "awaited (events log) =
        map (\<lambda>k. (k, (map executor threeFiles ! k) ())) [0..<length (map executor threeFiles)]"
    and printed: "console log =
        map the (filter (\<lambda>result. result \<noteq> None)
          (map (\<lambda>runner. runner ()) (map executor threeFiles)))"
    by blast
  have len: "length (slices log) = 2" using count unfolding n by simp
  have "slices log ! 0 = [0, 1]" using nth len unfolding n by (simp add: upt_rec)
  moreover have "slices log ! 1 = [2]" using nth len unfolding n by (simp add: upt_rec)
  ultimately have s: "slices log = [[0, 1], [2]]"
    using len by (auto simp: list_eq_iff_nth_eq less_Suc_eq numeral_2_eq_2)
  have i: "invoked (events log) = [0, 1, 2]" using inv unfolding n by (simp add: upt_rec)
  have each: "map executor threeFiles =
      [executor (fileOf 3 quiet passingSuite), executor (fileOf 1 quiet stringThrowingSuite),
       executor (fileOf 2 quiet failingSuite)]"
    by (simp add: threeFiles_def)
  have t: "awaited (events log) = [(0, None), (1, Some (NonError ''boom'')), (2, None)]"
    using await unfolding n each
    by (simp add: upt_rec executor_def fileOf_def passingSuite_outcome
          failingSuite_outcome stringThrowingSuite_outcome)
  have c: "console log = [NonError ''boom'']"
    unfolding printed threeFiles_outcomes by simp
  have e: "events log = [Invoke 0, Invoke 1, AllSettled [(0, None), (1, Some (NonError ''boom''))],
                    Invoke 2, AllSettled [(2, None)]]"
    using log unfolding threeFiles_events by auto
  show ?thesis using w log s e i t c by blast
qed

section \<open>The width of the slices\<close>

lemma foldl_loadSuite:
  "snd (foldl loadSuite acc files) = snd acc @ map executor files"
  by (induction files arbitrary: acc) (simp_all add: loadSuite_def)

lemma discover_snoc:
  "discover (files @ [file]) =
     (parallelExecution (config file), map executor (files @ [file]))"
  by (simp add: discover_def loadSuite_def foldl_loadSuite)

text \<open>
  C5. For every invocation that discovers at least one suite file, the width the scheduler
  loop runs with is the \<^verbatim>\<open>parallelExecution\<close> of the configuration loaded for the last file
  discovered, whatever the configurations of the other files hold, and this one width is
  used for the executors of all the files: when it is at least one, the executors of all the
  files are cut into \<open>ceil(n/w)\<close> slices of that width \<open>w\<close>, the slice number \<open>b\<close> holding
  the executors from \<open>b * w\<close> up to \<open>b * w + w\<close> or \<open>n\<close>; when it is below one, the command
  does not end.
\<close>

theorem width_of_last_suite:
  assumes "files \<noteq> []"
  shows "fst (discover files) = parallelExecution (config (last files)) \<and>
         snd (discover files) = map executor files \<and>
         (1 \<le> parallelExecution (config (last files)) \<longrightarrow>
            (\<exists>log. main files = Some log \<and>
               int (length (slices log)) =
                 (int (length files) + parallelExecution (config (last files)) - 1)
                   div parallelExecution (config (last files)) \<and>
               (\<forall>b < length (slices log).
                  slices log ! b =
                    [b * nat (parallelExecution (config (last files)))..<
                       min (b * nat (parallelExecution (config (last files)))
                              + nat (parallelExecution (config (last files)))) (length files)] \<and>
                  length (slices log ! b) \<le> nat (parallelExecution (config (last files)))) \<and>
               invoked (events log) = [0..<length files])) \<and>
         (parallelExecution (config (last files)) < 1 \<longrightarrow> main files = None)"
proof -
  define w where "w = parallelExecution (config (last files))"
  from assms obtain init lastFile where f: "files = init @ [lastFile]"
    by (cases files rule: rev_cases) auto
  have d: "discover files = (w, map executor files)"
    unfolding w_def f by (simp add: discover_snoc)
  have m: "main files = schedule w (map executor files) 0 emptyLog"
    by (simp add: main_def d)
  have wide: "\<exists>log. main files = Some log \<and>
               int (length (slices log)) = (int (length files) + w - 1) div w \<and>
               (\<forall>b < length (slices log).
                  slices log ! b = [b * nat w..<min (b * nat w + nat w) (length files)] \<and>
                  length (slices log ! b) \<le> nat w) \<and>
               invoked (events log) = [0..<length files]" if "1 \<le> w"
  proof -
    from schedule_characterised [OF that, of "map executor files"]
    obtain log where "schedule w (map executor files) 0 emptyLog = Some log"
      and "int (length (slices log)) = (int (length (map executor files)) + w - 1) div w"
      and "\<forall>b < length (slices log).
             slices log ! b = [b * nat w..<min (b * nat w + nat w) (length (map executor files))] \<and>
             length (slices log ! b) \<le> nat w"
      and "invoked (events log) = [0..<length (map executor files)]"
      by blast
    then show ?thesis
      unfolding m length_map by blast
  qed
  have narrow: "main files = None" if "w < 1"
  proof (cases "main files")
    case None
    then show ?thesis .
  next
    case (Some result)
    with schedule_narrow [of w "map executor files" 0 emptyLog result] that assms m
    show ?thesis by simp
  qed
  show ?thesis
    using d wide narrow unfolding w_def by simp
qed

theorem width_of_last_suite_witness:
  "threeFiles \<noteq> [] \<and> map (\<lambda>file. parallelExecution (config file)) threeFiles = [3, 1, 2] \<and>
   1 \<le> parallelExecution (config (last threeFiles)) \<and>
   fst (discover threeFiles) = 2 \<and>
   (\<exists>log. main threeFiles = Some log \<and> slices log = [[0, 1], [2]]) \<and>
   idleFiles \<noteq> [] \<and> parallelExecution (config (last idleFiles)) < 1 \<and>
   main idleFiles = None"
proof -
  have ne: "threeFiles \<noteq> []" by (simp add: threeFiles_def)
  have l: "parallelExecution (config (last threeFiles)) = 2"
    by (simp add: threeFiles_def fileOf_def)
  have n: "length threeFiles = 3" by (simp add: threeFiles_def)
  have ws: "map (\<lambda>file. parallelExecution (config file)) threeFiles = [3, 1, 2]"
    by (simp add: threeFiles_def fileOf_def)
  from width_of_last_suite [OF ne] obtain log where log: "main threeFiles = Some log"
    and count: "int (length (slices log)) = (int (length threeFiles) + 2 - 1) div 2"
    and nth: "\<forall>b < length (slices log).
        slices log ! b = [b * nat 2..<min (b * nat 2 + nat 2) (length threeFiles)]
        \<and> length (slices log ! b) \<le> nat 2"
    and width: "fst (discover threeFiles) = 2"
    unfolding l by auto
  have len: "length (slices log) = 2" using count unfolding n by simp
  have "slices log ! 0 = [0, 1]" using nth len unfolding n by (simp add: upt_rec)
  moreover have "slices log ! 1 = [2]" using nth len unfolding n by (simp add: upt_rec)
  ultimately have s: "slices log = [[0, 1], [2]]"
    using len by (auto simp: list_eq_iff_nth_eq less_Suc_eq numeral_2_eq_2)
  have ne': "idleFiles \<noteq> []" by (simp add: idleFiles_def)
  have l': "parallelExecution (config (last idleFiles)) = 0"
    by (simp add: idleFiles_def fileOf_def)
  have "main idleFiles = None"
    using width_of_last_suite [OF ne'] unfolding l' by simp
  then show ?thesis
    using ne ws l width log s ne' l' by simp
qed

section \<open>One test case\<close>

lemma afterCase_simps [simp]:
  "runner (fst (afterCase E s)) = runner s"
  "snaps (fst (afterCase E s)) = snaps s"
  "ticks (fst (afterCase E s)) = ticks s"
  "destroyed (fst (afterCase E s)) = destroyed s"
  "RunBody k \<in> set (trace (fst (afterCase E s))) \<longleftrightarrow> RunBody k \<in> set (trace s)"
  by (auto simp: afterCase_def Let_def split: option.splits)

lemma afterCase_trace:
  "trace (fst (afterCase E s)) =
     trace s @ Emit AFTER_CASE (currentTestCaseIndex (runner s)) #
       (case emit E AFTER_CASE (runner s) of
          Some (Error m st) \<Rightarrow> [Log ERROR (errorText (Error m st))] | _ \<Rightarrow> [])"
  by (simp add: afterCase_def Let_def split: option.splits thrown.splits)

lemma afterCase_outcome:
  "snd (afterCase E s) =
     (case emit E AFTER_CASE (runner s) of Some (NonError x) \<Rightarrow> Some (NonError x) | _ \<Rightarrow> None)"
  by (simp add: afterCase_def Let_def split: option.splits thrown.splits)

lemma takeScreenshot_simps [simp]:
  "status (runner (fst (takeScreenshot E i t s))) = status (runner s)"
  "currentTestCaseIndex (runner (fst (takeScreenshot E i t s))) = currentTestCaseIndex (runner s)"
  "length (testCases (runner (fst (takeScreenshot E i t s)))) = length (testCases (runner s))"
  "ticks (fst (takeScreenshot E i t s)) = ticks s"
  "destroyed (fst (takeScreenshot E i t s)) = destroyed s"
  "RunBody k \<in> set (trace (fst (takeScreenshot E i t s))) \<longleftrightarrow> RunBody k \<in> set (trace s)"
  by (auto simp: takeScreenshot_def Let_def split: option.splits)

lemma takeScreenshot_trace:
  "trace (fst (takeScreenshot E i t s)) =
     trace s @ SaveScreenshot i (ssPath E t) #
       (case saveScreenshot E i (ssPath E t) of
          Some (Error m st) \<Rightarrow> [Log WARN (errorText (Error m st))] | _ \<Rightarrow> [])"
  by (simp add: takeScreenshot_def Let_def split: option.splits thrown.splits)

lemma takeScreenshot_outcome:
  "snd (takeScreenshot E i t s) =
     (case saveScreenshot E i (ssPath E t) of
        Some (NonError x) \<Rightarrow> Some (NonError x) | _ \<Rightarrow> None)"
  by (simp add: takeScreenshot_def Let_def split: option.splits thrown.splits)

lemma takeScreenshot_runner:
  "runner (fst (takeScreenshot E i t s)) =
     (case saveScreenshot E i (ssPath E t) of
        None \<Rightarrow> onCurrentCase (\<lambda>c. c\<lparr>screenshot := Some (ssPath E t)\<rparr>) (runner s)
      | Some v \<Rightarrow> runner s)"
  by (simp add: takeScreenshot_def Let_def split: option.splits thrown.splits)

lemma execCase_enabled:
  assumes "enabled (testCases (runner s) ! index)" and "startDriver E index = None"
  shows "execCase E index s =
           (case beforeCaseAndBody E index (started index s) of
              (s3, Some v) \<Rightarrow> (s3, Some v)
            | (s3, None) \<Rightarrow>
                (case afterCase E s3 of
                   (s4, Some v) \<Rightarrow> (s4, Some v)
                 | (s4, None) \<Rightarrow> release E index s4))"
  using assms by (simp add: execCase_def started_def Let_def)

lemma started_simps [simp]:
  "runner (started index s) = (runner s)\<lparr>currentTestCaseIndex := index\<rparr>"
  "trace (started index s) = trace s @ [StartDriver index]"
  "ticks (started index s) = ticks s"
  "destroyed (started index s) = False"
  by (simp_all add: started_def)

lemma takeScreenshot_NonError_only:
  "snd (takeScreenshot E i t s) = Some v \<Longrightarrow> assertIsError v = Some v"
  by (auto simp: takeScreenshot_def Let_def assertIsError_def split: option.splits thrown.splits)

lemma bodyFailed_NonError_only:
  "snd (bodyFailed E i e s) = Some v \<Longrightarrow> assertIsError v = Some v"
  by (auto simp: bodyFailed_def Let_def split_beta assertIsError_def
        split: option.splits thrown.splits dest: takeScreenshot_NonError_only)

lemma runBody_NonError_only:
  "snd (runBody E i s) = Some v \<Longrightarrow> assertIsError v = Some v"
  by (auto simp: runBody_def Let_def split_beta split: option.splits
        dest: bodyFailed_NonError_only)

text \<open>Whatever the inner try statement throws, the outer catch block throws again.\<close>

lemma beforeCaseAndBody_hook_ok:
  assumes "emit E BEFORE_CASE (runner s) = None"
  shows "beforeCaseAndBody E index s =
           runBody E index (act (Emit BEFORE_CASE (currentTestCaseIndex (runner s))) s)"
proof (cases "snd (runBody E index (act (Emit BEFORE_CASE (currentTestCaseIndex (runner s))) s))")
  case None
  then show ?thesis
    using assms by (simp add: beforeCaseAndBody_def Let_def split_beta prod_eq_iff)
next
  case (Some v)
  with runBody_NonError_only [OF Some] show ?thesis
    using assms by (simp add: beforeCaseAndBody_def Let_def split_beta prod_eq_iff)
qed

lemma beforeCaseAndBody_hook_thrown:
  assumes "emit E BEFORE_CASE (runner s) = Some v"
  shows "beforeCaseAndBody E index s =
           (case v of
              Error m st \<Rightarrow>
                release E index
                  (mutate (onCurrentCase
                     (\<lambda>c. c\<lparr>duration := convertTimeMillisToPrettyString E 0\<rparr>))
                     (act (Log ERROR (errorText v))
                        (act (Emit BEFORE_CASE (currentTestCaseIndex (runner s))) s)))
            | NonError x \<Rightarrow> (act (Emit BEFORE_CASE (currentTestCaseIndex (runner s))) s, Some v))"
  using assms by (cases v) (simp_all add: beforeCaseAndBody_def Let_def)

lemma onCurrentCase_current [simp]:
  "currentTestCaseIndex r = k \<Longrightarrow> k < length (testCases r) \<Longrightarrow>
     testCases (onCurrentCase f r) ! k = f (testCases r ! k)"
  by (auto simp: onCurrentCase_def currentCase_def)

lemma currentCase_onCurrentCase [simp]:
  "currentTestCaseIndex r < length (testCases r) \<Longrightarrow>
     currentCase (onCurrentCase f r) = f (currentCase r)"
  by (simp add: onCurrentCase_def currentCase_def)

text \<open>The state after the outer try statement when the body has thrown an Error.\<close>

lemma body_Error_caught:
  assumes "currentTestCaseIndex (runner s) = index"
    and "index < length (testCases (runner s))"
    and "emit E BEFORE_CASE (runner s) = None"
    and "caseMethod (testCases (runner s) ! index) index = Some (Error m st)"
  shows "snd (beforeCaseAndBody E index s) =
           (case saveScreenshot E index (ssPath E (now E (Suc (ticks s)))) of
              Some (NonError x) \<Rightarrow> Some (NonError x) | _ \<Rightarrow> None)"
    and "status (runner (fst (beforeCaseAndBody E index s))) =
           (case saveScreenshot E index (ssPath E (now E (Suc (ticks s)))) of
              Some (NonError x) \<Rightarrow> status (runner s) | _ \<Rightarrow> FAILED)"
    and "currentTestCaseIndex (runner (fst (beforeCaseAndBody E index s))) = index"
    and "testCases (runner (fst (beforeCaseAndBody E index s))) ! index =
           (testCases (runner s) ! index)
             \<lparr>startTime := now E (ticks s), endTime := now E (Suc (Suc (ticks s))),
              duration := convertTimeMillisToPrettyString E
                 (now E (Suc (Suc (ticks s))) - now E (ticks s)),
              status := FAILED, exception := Some m,
              screenshot :=
                (case saveScreenshot E index (ssPath E (now E (Suc (ticks s)))) of
                   None \<Rightarrow> Some (ssPath E (now E (Suc (ticks s))))
                 | Some e \<Rightarrow> screenshot (testCases (runner s) ! index))\<rparr>"
    and "trace (fst (beforeCaseAndBody E index s)) =
           trace s @ [Emit BEFORE_CASE index, RunBody index,
                      SaveScreenshot index (ssPath E (now E (Suc (ticks s))))]
             @ (case saveScreenshot E index (ssPath E (now E (Suc (ticks s)))) of
                  None \<Rightarrow> [Log ERROR (errorText (Error m st))]
                | Some (Error m' st') \<Rightarrow>
                    [Log WARN (errorText (Error m' st')), Log ERROR (errorText (Error m st))]
                | Some (NonError x) \<Rightarrow> [])"
    and "destroyed (fst (beforeCaseAndBody E index s)) = destroyed s"
proof -
  let ?p = "ssPath E (now E (Suc (ticks s)))"
  consider "saveScreenshot E index ?p = None"
    | m' st' where "saveScreenshot E index ?p = Some (Error m' st')"
    | x where "saveScreenshot E index ?p = Some (NonError x)"
  proof (cases "saveScreenshot E index ?p")
    case None
    then show ?thesis using that by simp
  next
    case (Some a)
    then show ?thesis using that by (cases a) auto
  qed
  note shot = this
  note unfold = beforeCaseAndBody_hook_ok [OF assms(3)] runBody_def bodyFailed_def Let_def
    split_beta takeScreenshot_outcome takeScreenshot_trace takeScreenshot_runner
  have cur: "currentCase (runner s) = testCases (runner s) ! index"
    using assms(1) by (simp add: currentCase_def)
  show "snd (beforeCaseAndBody E index s) =
           (case saveScreenshot E index ?p of
              Some (NonError x) \<Rightarrow> Some (NonError x) | _ \<Rightarrow> None)"
    using assms(1,2,4) by (cases rule: shot) (simp_all add: unfold)
  show "status (runner (fst (beforeCaseAndBody E index s))) =
           (case saveScreenshot E index ?p of
              Some (NonError x) \<Rightarrow> status (runner s) | _ \<Rightarrow> FAILED)"
    using assms(1,2,4) by (cases rule: shot) (simp_all add: unfold)
  show "currentTestCaseIndex (runner (fst (beforeCaseAndBody E index s))) = index"
    using assms(1,2,4) by (cases rule: shot) (simp_all add: unfold)
  show "trace (fst (beforeCaseAndBody E index s)) =
           trace s @ [Emit BEFORE_CASE index, RunBody index, SaveScreenshot index ?p]
             @ (case saveScreenshot E index ?p of
                  None \<Rightarrow> [Log ERROR (errorText (Error m st))]
                | Some (Error m' st') \<Rightarrow>
                    [Log WARN (errorText (Error m' st')), Log ERROR (errorText (Error m st))]
                | Some (NonError x) \<Rightarrow> [])"
    using assms(1,2,4) by (cases rule: shot) (simp_all add: unfold)
  show "destroyed (fst (beforeCaseAndBody E index s)) = destroyed s"
    using assms(1,2,4) by (cases rule: shot) (simp_all add: unfold)
  show "testCases (runner (fst (beforeCaseAndBody E index s))) ! index =
           (testCases (runner s) ! index)
             \<lparr>startTime := now E (ticks s), endTime := now E (Suc (Suc (ticks s))),
              duration := convertTimeMillisToPrettyString E
                 (now E (Suc (Suc (ticks s))) - now E (ticks s)),
              status := FAILED, exception := Some m,
              screenshot :=
                (case saveScreenshot E index ?p of
                   None \<Rightarrow> Some ?p
                 | Some e \<Rightarrow> screenshot (testCases (runner s) ! index))\<rparr>"
    using assms(1,2,4)
    by (cases rule: shot)
       (simp_all add: unfold cur startNow_def endNow_def generateDuration_def)
qed

text \<open>What the iteration is when the outer try statement has thrown.\<close>

lemma execCase_try_thrown:
  assumes "enabled (testCases (runner s) ! index)" and "startDriver E index = None"
    and "snd (beforeCaseAndBody E index (started index s)) = Some v"
  shows "execCase E index s = (fst (beforeCaseAndBody E index (started index s)), Some v)"
  using assms by (simp add: execCase_enabled split_beta)

text \<open>What follows the outer try statement when it has not thrown.\<close>

lemma execCase_after_try:
  assumes "enabled (testCases (runner s) ! index)" and "startDriver E index = None"
    and "snd (beforeCaseAndBody E index (started index s)) = None"
  shows "runner (fst (execCase E index s)) =
           runner (fst (beforeCaseAndBody E index (started index s)))"
    and "trace (fst (execCase E index s)) =
           trace (fst (beforeCaseAndBody E index (started index s)))
           @ Emit AFTER_CASE
               (currentTestCaseIndex (runner (fst (beforeCaseAndBody E index (started index s)))))
           # (case emit E AFTER_CASE (runner (fst (beforeCaseAndBody E index (started index s)))) of
                None \<Rightarrow> [DestroyDriver index]
              | Some (Error m st) \<Rightarrow> [Log ERROR (errorText (Error m st)), DestroyDriver index]
              | Some (NonError x) \<Rightarrow> [])"
    and "snd (execCase E index s) =
           (case emit E AFTER_CASE (runner (fst (beforeCaseAndBody E index (started index s)))) of
              Some (NonError x) \<Rightarrow> Some (NonError x)
            | _ \<Rightarrow> destroyDriver E index
                     (destroyed (fst (beforeCaseAndBody E index (started index s)))))"
  using assms
  by (simp_all add: execCase_enabled split_beta afterCase_outcome afterCase_trace
        split: option.splits thrown.splits)

subsection \<open>The order of the actions\<close>















subsection \<open>A failing \<^verbatim>\<open>BEFORE_CASE\<close> hook\<close>

text \<open>
  C3, as amended. For an enabled test case whose \<^verbatim>\<open>BEFORE_CASE\<close> emission throws an Error,
  the executor logs the Error, sets the duration of the case to the rendering of zero and
  calls \<^verbatim>\<open>destroyDriver\<close> in the catch block; the body is not run. If that first release is
  rejected, the executor is rejected with its reason and \<^verbatim>\<open>AFTER_CASE\<close> is not emitted.
  Otherwise \<^verbatim>\<open>AFTER_CASE\<close> is emitted, once; if it throws a value that is not an Error, the
  executor is rejected with it and there is no second release; otherwise
  \<^verbatim>\<open>destroyDriver\<close> is called a second time, on the handle already destroyed, and the
  iteration ends as that call does: when the driver rejects it, the error surfaces and the
  executor is rejected with it.
\<close>

theorem beforeCase_Error_released_twice:
  assumes "enabled (testCases (runner s) ! index)"
    and "index < length (testCases (runner s))"
    and "startDriver E index = None"
    and "emit E BEFORE_CASE ((runner s)\<lparr>currentTestCaseIndex := index\<rparr>) = Some (Error m st)"
  shows "duration (testCases (runner (fst (execCase E index s))) ! index) =
           convertTimeMillisToPrettyString E 0 \<and>
         performed s (fst (execCase E index s)) =
           [StartDriver index, Emit BEFORE_CASE index, Log ERROR (errorText (Error m st)),
            DestroyDriver index]
           @ (case destroyDriver E index False of
                Some v \<Rightarrow> []
              | None \<Rightarrow>
                  Emit AFTER_CASE index #
                  (case emit E AFTER_CASE (runner (fst (execCase E index s))) of
                     None \<Rightarrow> [DestroyDriver index]
                   | Some (Error m' st') \<Rightarrow>
                       [Log ERROR (errorText (Error m' st')), DestroyDriver index]
                   | Some (NonError x) \<Rightarrow> [])) \<and>
         snd (execCase E index s) =
           (case destroyDriver E index False of
              Some v \<Rightarrow> Some v
            | None \<Rightarrow>
                (case emit E AFTER_CASE (runner (fst (execCase E index s))) of
                   Some (NonError x) \<Rightarrow> Some (NonError x)
                 | _ \<Rightarrow> destroyDriver E index True)) \<and>
         (destroyDriver E index False = None \<and>
          (\<forall>x. emit E AFTER_CASE (runner (fst (execCase E index s))) \<noteq> Some (NonError x)) \<longrightarrow>
            count_list (performed s (fst (execCase E index s))) (Emit AFTER_CASE index) = 1 \<and>
            count_list (performed s (fst (execCase E index s))) (DestroyDriver index) = 2)"
proof -
  let ?r = "onCurrentCase (\<lambda>c. c\<lparr>duration := convertTimeMillisToPrettyString E 0\<rparr>)
              ((runner s)\<lparr>currentTestCaseIndex := index\<rparr>)"
  have hook: "emit E BEFORE_CASE (runner (started index s)) = Some (Error m st)"
    using assms(4) by simp
  note bc = beforeCaseAndBody_hook_thrown [OF hook, of index, simplified]
  have r: "runner (fst (execCase E index s)) = ?r"
    using assms(1,3) by (simp add: execCase_enabled bc split_beta split: option.splits)
  have d: "duration (testCases ?r ! index) = convertTimeMillisToPrettyString E 0"
    using assms(2) by simp
  have tr: "performed s (fst (execCase E index s)) =
           [StartDriver index, Emit BEFORE_CASE index, Log ERROR (errorText (Error m st)),
            DestroyDriver index]
           @ (case destroyDriver E index False of
                Some v \<Rightarrow> []
              | None \<Rightarrow>
                  Emit AFTER_CASE index #
                  (case emit E AFTER_CASE ?r of
                     None \<Rightarrow> [DestroyDriver index]
                   | Some (Error m' st') \<Rightarrow>
                       [Log ERROR (errorText (Error m' st')), DestroyDriver index]
                   | Some (NonError x) \<Rightarrow> []))"
    using assms(1,3)
    by (simp add: execCase_enabled bc split_beta performed_def afterCase_trace afterCase_outcome
          split: option.splits thrown.splits)
  have out: "snd (execCase E index s) =
           (case destroyDriver E index False of
              Some v \<Rightarrow> Some v
            | None \<Rightarrow>
                (case emit E AFTER_CASE ?r of
                   Some (NonError x) \<Rightarrow> Some (NonError x)
                 | _ \<Rightarrow> destroyDriver E index True))"
    using assms(1,3)
    by (simp add: execCase_enabled bc split_beta afterCase_outcome
          split: option.splits thrown.splits)
  have counts: "count_list (performed s (fst (execCase E index s))) (Emit AFTER_CASE index) = 1 \<and>
      count_list (performed s (fst (execCase E index s))) (DestroyDriver index) = 2"
    if "destroyDriver E index False = None" "\<forall>x. emit E AFTER_CASE ?r \<noteq> Some (NonError x)"
    using that unfolding tr by (simp split: option.splits thrown.splits)
  show ?thesis
    unfolding r using d tr out counts by blast
qed

theorem beforeCase_Error_released_twice_witness:
  "enabled (testCases (runner (initial passingSuite)) ! 0) \<and>
   emit (hookThrows BEFORE_CASE (Error ''no session'' ''at hook'') quiet) BEFORE_CASE
     ((runner (initial passingSuite))\<lparr>currentTestCaseIndex := 0\<rparr>)
     = Some (Error ''no session'' ''at hook'') \<and>
   destroyDriver (hookThrows BEFORE_CASE (Error ''no session'' ''at hook'') quiet) 0 False = None \<and>
   performed (initial passingSuite)
     (fst (execCase (hookThrows BEFORE_CASE (Error ''no session'' ''at hook'') quiet) 0
        (initial passingSuite)))
     = [StartDriver 0, Emit BEFORE_CASE 0,
        Log ERROR (''no session'' @ [CHR 0x0A] @ ''at hook''),
        DestroyDriver 0, Emit AFTER_CASE 0, DestroyDriver 0] \<and>
   count_list (performed (initial passingSuite)
     (fst (execCase (hookThrows BEFORE_CASE (Error ''no session'' ''at hook'') quiet) 0
        (initial passingSuite)))) (DestroyDriver 0) = 2 \<and>
   duration (testCases (runner
     (fst (execCase (hookThrows BEFORE_CASE (Error ''no session'' ''at hook'') quiet) 0
        (initial passingSuite)))) ! 0) = ''0 ms'' \<and>
   snd (execCase (hookThrows BEFORE_CASE (Error ''no session'' ''at hook'') quiet) 0
        (initial passingSuite)) = None"
  using beforeCase_Error_released_twice
    [of "initial passingSuite" 0 "hookThrows BEFORE_CASE (Error ''no session'' ''at hook'') quiet"
       "''no session''" "''at hook''"]
  by (simp add: sample_defs errorText_def)

text \<open>
  The claim as stated fails in four ways. When \<^verbatim>\<open>BEFORE_CASE\<close> throws a string, the
  iteration is left at once: \<^verbatim>\<open>AFTER_CASE\<close> is not emitted, the duration is not set and the
  driver is not released. When \<^verbatim>\<open>BEFORE_CASE\<close> throws an Error and \<^verbatim>\<open>AFTER_CASE\<close> then
  throws a string, the driver is released once only. When the driver rejects the release of
  a handle destroyed before, the error of the second release surfaces: the executor is
  rejected with it. When the driver rejects the first release, \<^verbatim>\<open>AFTER_CASE\<close> is not
  emitted.
\<close>

theorem beforeCase_failure_counterexample:
  "enabled (testCases passingSuite ! 0) \<and>
   performed (initial passingSuite)
     (fst (execCase (hookThrows BEFORE_CASE (NonError ''down'') quiet) 0 (initial passingSuite)))
     = [StartDriver 0, Emit BEFORE_CASE 0] \<and>
   duration (testCases (runner
     (fst (execCase (hookThrows BEFORE_CASE (NonError ''down'') quiet) 0
        (initial passingSuite)))) ! 0) = [] \<and>
   snd (execCase (hookThrows BEFORE_CASE (NonError ''down'') quiet) 0 (initial passingSuite))
     = Some (NonError ''down'') \<and>
   performed (initial passingSuite)
     (fst (execCase (hookThrows AFTER_CASE (NonError ''down'')
             (hookThrows BEFORE_CASE (Error ''no session'' ''at hook'') quiet)) 0
        (initial passingSuite)))
     = [StartDriver 0, Emit BEFORE_CASE 0,
        Log ERROR (''no session'' @ [CHR 0x0A] @ ''at hook''),
        DestroyDriver 0, Emit AFTER_CASE 0] \<and>
   performed (initial passingSuite)
     (fst (execCase (strictDriver (hookThrows BEFORE_CASE (Error ''no session'' ''at hook'') quiet))
        0 (initial passingSuite)))
     = [StartDriver 0, Emit BEFORE_CASE 0,
        Log ERROR (''no session'' @ [CHR 0x0A] @ ''at hook''),
        DestroyDriver 0, Emit AFTER_CASE 0, DestroyDriver 0] \<and>
   snd (execCase (strictDriver (hookThrows BEFORE_CASE (Error ''no session'' ''at hook'') quiet))
        0 (initial passingSuite))
     = Some (Error ''no session'' ''at quit'') \<and>
   performed (initial passingSuite)
     (fst (execCase (releaseThrows (Error ''gone'' ''at quit'')
             (hookThrows BEFORE_CASE (Error ''no session'' ''at hook'') quiet)) 0
        (initial passingSuite)))
     = [StartDriver 0, Emit BEFORE_CASE 0,
        Log ERROR (''no session'' @ [CHR 0x0A] @ ''at hook''), DestroyDriver 0] \<and>
   snd (execCase (releaseThrows (Error ''gone'' ''at quit'')
             (hookThrows BEFORE_CASE (Error ''no session'' ''at hook'') quiet)) 0
        (initial passingSuite))
     = Some (Error ''gone'' ''at quit'')"
  by (simp add: sample_defs strictDriver_def releaseThrows_def run_defs performed_def)

text \<open>
  C10. For an enabled test case whose \<^verbatim>\<open>BEFORE_CASE\<close> emission throws, whatever the value
  thrown, the iteration assigns to the run records nothing but the cursor and, when the
  value is an Error, the duration of the case, set to the rendering of zero: the status and
  the captured failure message of the case and the status of the Runner are as before (a
  pending case stays pending, and the Runner is not marked \<open>FAILED\<close>).
\<close>

theorem beforeCase_thrown_sets_duration_only:
  assumes "enabled (testCases (runner s) ! index)"
    and "index < length (testCases (runner s))"
    and "startDriver E index = None"
    and "emit E BEFORE_CASE ((runner s)\<lparr>currentTestCaseIndex := index\<rparr>) = Some v"
  shows "runner (fst (execCase E index s)) =
           (runner s)\<lparr>currentTestCaseIndex := index,
             testCases := (testCases (runner s))[index := (testCases (runner s) ! index)
               \<lparr>duration := (case v of
                   Error m st \<Rightarrow> convertTimeMillisToPrettyString E 0
                 | NonError x \<Rightarrow> duration (testCases (runner s) ! index))\<rparr>]\<rparr> \<and>
         status (testCases (runner (fst (execCase E index s))) ! index) =
           status (testCases (runner s) ! index) \<and>
         exception (testCases (runner (fst (execCase E index s))) ! index) =
           exception (testCases (runner s) ! index) \<and>
         status (runner (fst (execCase E index s))) = status (runner s)"
proof (cases v)
  case (Error m st)
  then show ?thesis
    using assms
    by (simp add: execCase_enabled beforeCaseAndBody_hook_thrown split_beta
          onCurrentCase_def currentCase_def split: option.splits)
next
  case (NonError x)
  then show ?thesis
    using assms
    by (simp add: execCase_enabled beforeCaseAndBody_hook_thrown)
qed

theorem beforeCase_thrown_sets_duration_only_witness:
  "enabled (testCases (runner (initial passingSuite)) ! 0) \<and>
   emit (hookThrows BEFORE_CASE (Error ''no session'' ''at hook'') quiet) BEFORE_CASE
     ((runner (initial passingSuite))\<lparr>currentTestCaseIndex := 0\<rparr>)
     = Some (Error ''no session'' ''at hook'') \<and>
   status (testCases (runner
     (fst (execCase (hookThrows BEFORE_CASE (Error ''no session'' ''at hook'') quiet) 0
        (initial passingSuite)))) ! 0) = PENDING \<and>
   exception (testCases (runner
     (fst (execCase (hookThrows BEFORE_CASE (Error ''no session'' ''at hook'') quiet) 0
        (initial passingSuite)))) ! 0) = None \<and>
   status (runner
     (fst (execCase (hookThrows BEFORE_CASE (Error ''no session'' ''at hook'') quiet) 0
        (initial passingSuite)))) = NOT_STARTED"
  using beforeCase_thrown_sets_duration_only
    [of "initial passingSuite" 0 "hookThrows BEFORE_CASE (Error ''no session'' ''at hook'') quiet"
       "Error ''no session'' ''at hook''"]
  by (simp add: sample_defs)

subsection \<open>A failing body\<close>

text \<open>
  C7, as amended. For an enabled test case whose body throws an Error, the executor marks
  the case \<open>FAILED\<close>, records its end time and its duration (end minus start), stores the
  message of the Error as the captured failure message, and attempts a screenshot. When the
  attempt is fulfilled, or throws an Error, the executor goes on: it marks the Runner
  \<open>FAILED\<close> and logs the Error of the body, an Error of the attempt being logged as a
  warning before and changing nothing but the screenshot path, which is then not set; how
  the iteration ends depends on \<^verbatim>\<open>AFTER_CASE\<close> and on the release of the driver only. When
  the attempt throws a value that is not an Error, no warning is logged, the Runner is not
  marked \<open>FAILED\<close>, and the value propagates: the executor is rejected with it.
\<close>

theorem body_Error_recorded:
  assumes "enabled (testCases (runner s) ! index)"
    and "index < length (testCases (runner s))"
    and "startDriver E index = None"
    and "emit E BEFORE_CASE ((runner s)\<lparr>currentTestCaseIndex := index\<rparr>) = None"
    and "caseMethod (testCases (runner s) ! index) index = Some (Error m st)"
  shows "testCases (runner (fst (execCase E index s))) ! index =
           (testCases (runner s) ! index)
             \<lparr>startTime := now E (ticks s), endTime := now E (Suc (Suc (ticks s))),
              duration := convertTimeMillisToPrettyString E
                 (now E (Suc (Suc (ticks s))) - now E (ticks s)),
              status := FAILED, exception := Some m,
              screenshot :=
                (case saveScreenshot E index (ssPath E (now E (Suc (ticks s)))) of
                   None \<Rightarrow> Some (ssPath E (now E (Suc (ticks s))))
                 | Some e \<Rightarrow> screenshot (testCases (runner s) ! index))\<rparr> \<and>
         status (runner (fst (execCase E index s))) =
           (case saveScreenshot E index (ssPath E (now E (Suc (ticks s)))) of
              Some (NonError x) \<Rightarrow> status (runner s) | _ \<Rightarrow> FAILED) \<and>
         (\<exists>rest. performed s (fst (execCase E index s)) =
            [StartDriver index, Emit BEFORE_CASE index, RunBody index,
             SaveScreenshot index (ssPath E (now E (Suc (ticks s))))]
            @ (case saveScreenshot E index (ssPath E (now E (Suc (ticks s)))) of
                 None \<Rightarrow> [Log ERROR (errorText (Error m st)), Emit AFTER_CASE index] @ rest
               | Some (Error m' st') \<Rightarrow>
                   [Log WARN (errorText (Error m' st')), Log ERROR (errorText (Error m st)),
                    Emit AFTER_CASE index] @ rest
               | Some (NonError x) \<Rightarrow> [])) \<and>
         snd (execCase E index s) =
           (case saveScreenshot E index (ssPath E (now E (Suc (ticks s)))) of
              Some (NonError x) \<Rightarrow> Some (NonError x)
            | _ \<Rightarrow>
                (case emit E AFTER_CASE (runner (fst (execCase E index s))) of
                   Some (NonError x) \<Rightarrow> Some (NonError x)
                 | _ \<Rightarrow> destroyDriver E index False))"
proof -
  let ?s0 = "started index s"
  let ?shot = "saveScreenshot E index (ssPath E (now E (Suc (ticks s))))"
  have pre: "currentTestCaseIndex (runner ?s0) = index"
    "index < length (testCases (runner ?s0))"
    "emit E BEFORE_CASE (runner ?s0) = None"
    "caseMethod (testCases (runner ?s0) ! index) index = Some (Error m st)"
    using assms by simp_all
  note b = body_Error_caught [OF pre, simplified]
  show ?thesis
  proof (cases "\<exists>x. ?shot = Some (NonError x)")
    case True
    then obtain x where x: "?shot = Some (NonError x)" by blast
    have thrown: "snd (beforeCaseAndBody E index ?s0) = Some (NonError x)"
      unfolding b(1) by (simp add: x)
    note e = execCase_try_thrown [OF assms(1,3) thrown]
    show ?thesis
      unfolding e performed_def
      by (simp add: b(2) b(4) b(5) x)
  next
    case False
    then have tried: "snd (beforeCaseAndBody E index ?s0) = None"
      unfolding b(1) by (auto split: option.splits thrown.splits)
    note a = execCase_after_try [OF assms(1,3) tried]
    have "testCases (runner (fst (execCase E index s))) ! index =
           (testCases (runner s) ! index)
             \<lparr>startTime := now E (ticks s), endTime := now E (Suc (Suc (ticks s))),
              duration := convertTimeMillisToPrettyString E
                 (now E (Suc (Suc (ticks s))) - now E (ticks s)),
              status := FAILED, exception := Some m,
              screenshot :=
                (case ?shot of
                   None \<Rightarrow> Some (ssPath E (now E (Suc (ticks s))))
                 | Some e \<Rightarrow> screenshot (testCases (runner s) ! index))\<rparr>"
      unfolding a(1) b(4) by (simp split: option.splits)
    moreover have "status (runner (fst (execCase E index s))) =
           (case ?shot of Some (NonError x) \<Rightarrow> status (runner s) | _ \<Rightarrow> FAILED)"
      unfolding a(1) using b(2) by (simp split: option.splits thrown.splits)
    moreover have "\<exists>rest. performed s (fst (execCase E index s)) =
            [StartDriver index, Emit BEFORE_CASE index, RunBody index,
             SaveScreenshot index (ssPath E (now E (Suc (ticks s))))]
            @ (case ?shot of
                 None \<Rightarrow> [Log ERROR (errorText (Error m st)), Emit AFTER_CASE index] @ rest
               | Some (Error m' st') \<Rightarrow>
                   [Log WARN (errorText (Error m' st')), Log ERROR (errorText (Error m st)),
                    Emit AFTER_CASE index] @ rest
               | Some (NonError x) \<Rightarrow> [])"
      using False unfolding performed_def a(2) b(3) b(5)
      by (simp split: option.splits thrown.splits)
    moreover have "snd (execCase E index s) =
           (case ?shot of
              Some (NonError x) \<Rightarrow> Some (NonError x)
            | _ \<Rightarrow>
                (case emit E AFTER_CASE (runner (fst (execCase E index s))) of
                   Some (NonError x) \<Rightarrow> Some (NonError x)
                 | _ \<Rightarrow> destroyDriver E index False))"
      using False b(6) unfolding a(3) a(1)
      by (simp split: option.splits thrown.splits)
    ultimately show ?thesis by blast
  qed
qed

theorem body_Error_recorded_witness:
  "caseMethod (testCases (runner (initial failingSuite)) ! 0) 0
     = Some (Error ''not found'' ''at search'') \<and>
   saveScreenshot (shotThrows (Error ''no display'' ''at capture'') quiet) 0
     (ssPath (shotThrows (Error ''no display'' ''at capture'') quiet) 1005)
     = Some (Error ''no display'' ''at capture'') \<and>
   status (testCases (runner
     (fst (execCase (shotThrows (Error ''no display'' ''at capture'') quiet) 0
        (initial failingSuite)))) ! 0) = FAILED \<and>
   exception (testCases (runner
     (fst (execCase (shotThrows (Error ''no display'' ''at capture'') quiet) 0
        (initial failingSuite)))) ! 0) = Some ''not found'' \<and>
   endTime (testCases (runner
     (fst (execCase (shotThrows (Error ''no display'' ''at capture'') quiet) 0
        (initial failingSuite)))) ! 0) = 1010 \<and>
   status (runner
     (fst (execCase (shotThrows (Error ''no display'' ''at capture'') quiet) 0
        (initial failingSuite)))) = FAILED \<and>
   snd (execCase (shotThrows (Error ''no display'' ''at capture'') quiet) 0
        (initial failingSuite)) = None"
  using body_Error_recorded
    [of "initial failingSuite" 0 "shotThrows (Error ''no display'' ''at capture'') quiet"
       "''not found''" "''at search''"]
  by (simp add: sample_defs)

text \<open>
  The claim as stated fails: when the screenshot attempt throws a string, the string leaves
  the executor, no warning is logged, and the Runner is not marked \<open>FAILED\<close>.
\<close>

theorem screenshot_failure_counterexample:
  "caseMethod (testCases failingSuite ! 0) 0 = Some (Error ''not found'' ''at search'') \<and>
   snd (runnerMain (shotThrows (NonError ''disk full'') quiet) (initial failingSuite))
     = Some (NonError ''disk full'') \<and>
   status (runner (fst (runnerMain (shotThrows (NonError ''disk full'') quiet)
     (initial failingSuite)))) = RUNNING \<and>
   status (runner (fst (runnerMain (shotThrows (NonError ''disk full'') quiet)
     (initial failingSuite)))) \<noteq> FAILED \<and>
   trace (fst (runnerMain (shotThrows (NonError ''disk full'') quiet) (initial failingSuite)))
     = [Emit BEFORE_SUITE 0, StartDriver 0, Emit BEFORE_CASE 0, RunBody 0,
        SaveScreenshot 0 ''/logs/1010.png'']"
  by (simp add: sample_defs run_defs)

subsection \<open>The release of the driver\<close>




section \<open>A failing body in a whole run\<close>

lemma inCase_same:
  "inCase j s t \<Longrightarrow> runner t' = runner t \<Longrightarrow> inCase j s t'"
  by (simp add: inCase_def)

lemma inCase_act: "inCase j s t \<Longrightarrow> inCase j s (act a t)"
  by (erule inCase_same) simp

lemma inCase_tick: "inCase j s t \<Longrightarrow> inCase j s (snd (tick E t))"
  by (erule inCase_same) simp

lemma inCase_release: "inCase j s t \<Longrightarrow> inCase j s (fst (release E i t))"
  by (erule inCase_same) simp

lemma inCase_afterCase: "inCase j s t \<Longrightarrow> inCase j s (fst (afterCase E t))"
  by (erule inCase_same) simp

lemma inCase_onCurrentCase: "inCase j s t \<Longrightarrow> inCase j s (mutate (onCurrentCase g) t)"
  by (simp add: inCase_def)

lemma inCase_status: "inCase j s t \<Longrightarrow> inCase j s (mutate (\<lambda>r. r\<lparr>status := x\<rparr>) t)"
  by (simp add: inCase_def)

lemma inCase_cursor: "inCase j s (mutate (\<lambda>r. r\<lparr>currentTestCaseIndex := j\<rparr>) s)"
  by (simp add: inCase_def)

lemma inCase_started: "inCase j s (started j s)"
  by (simp add: inCase_def)

lemmas inCase_prims =
  inCase_act inCase_tick inCase_release inCase_afterCase inCase_onCurrentCase inCase_status

lemma inCase_takeScreenshot: "inCase j s t \<Longrightarrow> inCase j s (fst (takeScreenshot E i n t))"
  by (auto simp: takeScreenshot_def Let_def split: option.splits intro!: inCase_prims)

lemma inCase_bodyFailed: "inCase j s t \<Longrightarrow> inCase j s (fst (bodyFailed E i e t))"
  by (auto simp: bodyFailed_def Let_def split_beta split: option.splits
        intro!: inCase_prims inCase_takeScreenshot)

lemma inCase_runBody: "inCase j s t \<Longrightarrow> inCase j s (fst (runBody E i t))"
  by (auto simp: runBody_def Let_def split_beta split: option.splits
        intro!: inCase_prims inCase_bodyFailed)

lemma inCase_beforeCaseAndBody:
  "inCase j s t \<Longrightarrow> inCase j s (fst (beforeCaseAndBody E i t))"
  by (auto simp: beforeCaseAndBody_def Let_def split_beta split: option.splits
        intro!: inCase_prims inCase_runBody)

lemma inCase_execCase: "inCase j s (fst (execCase E j s))"
proof (cases "enabled (testCases (runner s) ! j) \<and> startDriver E j = None")
  case True
  then show ?thesis
    by (auto simp: execCase_enabled split_beta split: option.splits
          intro!: inCase_prims inCase_beforeCaseAndBody inCase_started)
next
  case False
  then show ?thesis
    by (auto simp: execCase_def Let_def split: option.splits
          intro!: inCase_prims inCase_cursor
          intro: inCase_same [OF inCase_cursor])
qed

lemma execCase_other:
  "i \<noteq> j \<Longrightarrow> testCases (runner (fst (execCase E j s))) ! i = testCases (runner s) ! i"
  using inCase_execCase [of j s E] by (simp add: inCase_def)

lemma execCase_length:
  "length (testCases (runner (fst (execCase E j s)))) = length (testCases (runner s))"
  using inCase_execCase [of j s E] by (simp add: inCase_def)

text \<open>
  The body of a case runs exactly when the case is enabled, its driver has started and its
  \<^verbatim>\<open>BEFORE_CASE\<close> hook has not thrown.
\<close>

lemma bodyFailed_RunBody [simp]:
  "RunBody k \<in> set (trace (fst (bodyFailed E i e s))) \<longleftrightarrow> RunBody k \<in> set (trace s)"
  by (auto simp: bodyFailed_def Let_def split_beta split: option.splits)

lemma runBody_RunBody [simp]:
  "RunBody k \<in> set (trace (fst (runBody E i s))) \<longleftrightarrow> k = i \<or> RunBody k \<in> set (trace s)"
  by (auto simp: runBody_def Let_def split_beta split: option.splits)

lemma beforeCaseAndBody_RunBody:
  "RunBody k \<in> set (trace (fst (beforeCaseAndBody E i s))) \<longleftrightarrow>
     RunBody k \<in> set (trace s) \<or> (k = i \<and> emit E BEFORE_CASE (runner s) = None)"
proof (cases "emit E BEFORE_CASE (runner s)")
  case None
  then show ?thesis by (auto simp: beforeCaseAndBody_hook_ok)
next
  case (Some v)
  then show ?thesis by (cases v) (simp_all add: beforeCaseAndBody_hook_thrown)
qed

lemma execCase_RunBody:
  "RunBody k \<in> set (trace (fst (execCase E i s))) \<longleftrightarrow>
     RunBody k \<in> set (trace s) \<or>
     (k = i \<and> enabled (testCases (runner s) ! i) \<and> startDriver E i = None \<and>
      emit E BEFORE_CASE ((runner s)\<lparr>currentTestCaseIndex := i\<rparr>) = None)"
proof (cases "enabled (testCases (runner s) ! i) \<and> startDriver E i = None")
  case True
  then show ?thesis
    by (auto simp: execCase_enabled split_beta beforeCaseAndBody_RunBody split: option.splits)
next
  case False
  then show ?thesis
    by (auto simp: execCase_def Let_def split: option.splits)
qed

lemma execCase_runner:
  assumes "enabled (testCases (runner s) ! index)" and "startDriver E index = None"
  shows "runner (fst (execCase E index s)) =
           runner (fst (beforeCaseAndBody E index (started index s)))"
  using assms by (simp add: execCase_enabled split_beta split: option.splits)

lemma execCase_marks:
  assumes "index < length (testCases (runner s))"
    and "RunBody index \<notin> set (trace s)"
    and "RunBody index \<in> set (trace (fst (execCase E index s)))"
    and "caseMethod (testCases (runner s) ! index) index = Some (Error m st)"
  shows "status (testCases (runner (fst (execCase E index s))) ! index) = FAILED \<and>
         exception (testCases (runner (fst (execCase E index s))) ! index) = Some m \<and>
         ((\<forall>p x. saveScreenshot E index p \<noteq> Some (NonError x)) \<longrightarrow>
            status (runner (fst (execCase E index s))) = FAILED)"
proof -
  from assms(2,3) have en: "enabled (testCases (runner s) ! index)"
    and sd: "startDriver E index = None"
    and hook: "emit E BEFORE_CASE ((runner s)\<lparr>currentTestCaseIndex := index\<rparr>) = None"
    by (simp_all add: execCase_RunBody)
  let ?s0 = "started index s"
  have pre: "currentTestCaseIndex (runner ?s0) = index"
    "index < length (testCases (runner ?s0))"
    "emit E BEFORE_CASE (runner ?s0) = None"
    "caseMethod (testCases (runner ?s0) ! index) index = Some (Error m st)"
    using assms(1,4) hook by simp_all
  note b = body_Error_caught [OF pre]
  note rr = execCase_runner [OF en sd]
  have "status (runner (fst (beforeCaseAndBody E index ?s0))) = FAILED"
    if "\<forall>p x. saveScreenshot E index p \<noteq> Some (NonError x)"
    unfolding b(2) using that by (auto split: option.splits thrown.splits)
  then show ?thesis
    unfolding rr b(4) by simp
qed

lemma runCases_other:
  "i \<notin> set js \<Longrightarrow>
     testCases (runner (fst (runCases E js s))) ! i = testCases (runner s) ! i \<and>
     (RunBody i \<in> set (trace (fst (runCases E js s))) \<longleftrightarrow> RunBody i \<in> set (trace s))"
proof (induction js arbitrary: s)
  case Nil
  then show ?case by simp
next
  case (Cons j js)
  then have "i \<noteq> j" and "i \<notin> set js" by auto
  with Cons.IH [of "fst (execCase E j s)"] show ?case
    by (auto simp: split_beta execCase_other execCase_RunBody split: option.splits)
qed

lemma runCases_marks:
  assumes "distinct js"
    and "index < length (testCases (runner s))"
    and "RunBody index \<notin> set (trace s)"
    and "RunBody index \<in> set (trace (fst (runCases E js s)))"
    and "caseMethod (testCases (runner s) ! index) index = Some (Error m st)"
  shows "status (testCases (runner (fst (runCases E js s))) ! index) = FAILED \<and>
         exception (testCases (runner (fst (runCases E js s))) ! index) = Some m \<and>
         ((\<forall>p x. saveScreenshot E index p \<noteq> Some (NonError x)) \<longrightarrow>
            status (runner (fst (runCases E js s))) = FAILED)"
  using assms
proof (induction js arbitrary: s)
  case Nil
  then show ?case by simp
next
  case (Cons j js)
  let ?s1 = "fst (execCase E j s)"
  show ?case
  proof (cases "RunBody index \<in> set (trace ?s1)")
    case True
    with Cons.prems(3) have j: "j = index" by (auto simp: execCase_RunBody)
    have marks: "status (testCases (runner ?s1) ! index) = FAILED \<and>
        exception (testCases (runner ?s1) ! index) = Some m \<and>
        ((\<forall>p x. saveScreenshot E index p \<noteq> Some (NonError x)) \<longrightarrow>
           status (runner ?s1) = FAILED)"
      using execCase_marks [OF Cons.prems(2,3) _ Cons.prems(5)] True unfolding j by simp
    show ?thesis
    proof (cases "snd (execCase E j s)")
      case (Some v)
      then show ?thesis using marks by (simp add: split_beta)
    next
      case None
      have "index \<notin> set js" using Cons.prems(1) j by simp
      from runCases_other [OF this, of E ?s1]
      have "testCases (runner (fst (runCases E js ?s1))) ! index = testCases (runner ?s1) ! index"
        by simp
      moreover have "status (runner (fst (runCases E js ?s1))) = FAILED"
        if "status (runner ?s1) = FAILED"
        using advances_sticky [OF advances_runCases [OF advances_refl]] that by blast
      ultimately show ?thesis using None marks by (simp add: split_beta)
    qed
  next
    case False
    show ?thesis
    proof (cases "snd (execCase E j s)")
      case (Some v)
      then show ?thesis using False Cons.prems(4) by (simp add: split_beta)
    next
      case None
      then have ran: "RunBody index \<in> set (trace (fst (runCases E js ?s1)))"
        using Cons.prems(4) by (simp add: split_beta)
      have "j \<noteq> index"
      proof
        assume "j = index"
        then have "index \<notin> set js" using Cons.prems(1) by simp
        from runCases_other [OF this, of E ?s1] ran False show False by simp
      qed
      then have same: "testCases (runner ?s1) ! index = testCases (runner s) ! index"
        by (simp add: execCase_other)
      have "status (testCases (runner (fst (runCases E js ?s1))) ! index) = FAILED \<and>
            exception (testCases (runner (fst (runCases E js ?s1))) ! index) = Some m \<and>
            ((\<forall>p x. saveScreenshot E index p \<noteq> Some (NonError x)) \<longrightarrow>
               status (runner (fst (runCases E js ?s1))) = FAILED)"
        using Cons.prems(1,2,5) False ran same
        by (intro Cons.IH) (simp_all add: execCase_length)
      then show ?thesis using None by (simp add: split_beta)
    qed
  qed
qed

lemma timing_runner_simps [simp]:
  "testCases (startNow t r) = testCases r"
  "currentTestCaseIndex (startNow t r) = currentTestCaseIndex r"
  "testCases (endNow t r) = testCases r"
  "currentTestCaseIndex (endNow t r) = currentTestCaseIndex r"
  "testCases (generateDuration p r) = testCases r"
  "currentTestCaseIndex (generateDuration p r) = currentTestCaseIndex r"
  by (simp_all add: startNow_def endNow_def generateDuration_def)

lemma afterSuite_simps [simp]:
  "testCases (runner (fst (afterSuite E s))) = testCases (runner s)"
  "status (runner (fst (afterSuite E s))) = status (runner s)"
  "RunBody k \<in> set (trace (fst (afterSuite E s))) \<longleftrightarrow> RunBody k \<in> set (trace s)"
  by (auto simp: afterSuite_def Let_def split_beta startNow_def endNow_def generateDuration_def
        split: option.splits)

lemma afterSuite_outcome:
  "snd (afterSuite E s) =
     (case emit E AFTER_SUITE (runner (fst (afterSuite E s))) of
        Some (NonError x) \<Rightarrow> Some (NonError x) | _ \<Rightarrow> None)"
  by (simp add: afterSuite_def Let_def split_beta split: option.splits thrown.splits)

text \<open>
  What leaves a statement of the executor by a throw is a value that is not an Error, or
  the reason of a rejected call of the driver.
\<close>

lemma NonError_iff: "assertIsError v = Some v \<longleftrightarrow> (\<exists>x. v = NonError x)"
  by (cases v) simp_all

lemma beforeCaseAndBody_leaves:
  assumes "snd (beforeCaseAndBody E i s) = Some v"
  shows "(\<exists>x. v = NonError x) \<or> (\<exists>again. destroyDriver E i again = Some v)"
proof (cases "emit E BEFORE_CASE (runner s)")
  case None
  with assms runBody_NonError_only [of E i _ v] show ?thesis
    by (simp add: beforeCaseAndBody_hook_ok NonError_iff)
next
  case (Some u)
  with assms show ?thesis
    by (cases u) (auto simp: beforeCaseAndBody_hook_thrown)
qed

lemma execCase_leaves:
  assumes "snd (execCase E i s) = Some v"
  shows "(\<exists>x. v = NonError x) \<or> startDriver E i = Some v \<or>
         (\<exists>again. destroyDriver E i again = Some v)"
proof (cases "enabled (testCases (runner s) ! i)")
  case False
  with assms show ?thesis by (simp add: execCase_def Let_def)
next
  case True
  show ?thesis
  proof (cases "startDriver E i")
    case (Some u)
    with assms True show ?thesis by (simp add: execCase_def Let_def)
  next
    case None
    show ?thesis
    proof (cases "snd (beforeCaseAndBody E i (started i s))")
      case (Some u)
      with assms have "u = v"
        by (simp add: execCase_try_thrown [OF True None Some])
      with beforeCaseAndBody_leaves [OF Some] show ?thesis by blast
    next
      case tried: None
      from assms show ?thesis
        unfolding execCase_after_try(3) [OF True None tried]
        by (auto split: option.splits thrown.splits)
    qed
  qed
qed

lemma runCases_leaves:
  assumes "snd (runCases E js s) = Some v"
  shows "(\<exists>x. v = NonError x) \<or> (\<exists>i. startDriver E i = Some v) \<or>
         (\<exists>i again. destroyDriver E i again = Some v)"
  using assms
proof (induction js arbitrary: s)
  case Nil
  then show ?case by simp
next
  case (Cons j js)
  show ?case
  proof (cases "snd (execCase E j s)")
    case (Some u)
    with Cons.prems have "u = v" by (simp add: split_beta)
    with execCase_leaves [OF Some] show ?thesis by blast
  next
    case None
    with Cons.prems have "snd (runCases E js (fst (execCase E j s))) = Some v"
      by (simp add: split_beta)
    then show ?thesis by (rule Cons.IH)
  qed
qed

lemma runnerMain_leaves:
  assumes "snd (runnerMain E s) = Some v"
  shows "(\<exists>x. v = NonError x) \<or> (\<exists>i. startDriver E i = Some v) \<or>
         (\<exists>i again. destroyDriver E i again = Some v)"
proof -
  let ?s3 = "act (Emit BEFORE_SUITE (currentTestCaseIndex (runner s)))
               (mutate (startNow (now E (ticks s))) (snd (tick E s)))"
  let ?loop = "runCases E [0..<length (testCases (runner ?s3))] ?s3"
  show ?thesis
  proof (cases "emit E BEFORE_SUITE (runner ?s3)")
    case (Some u)
    with assms show ?thesis
      by (cases u) (auto simp: runnerMain_def Let_def split_beta)
  next
    case None
    show ?thesis
    proof (cases "snd ?loop")
      case (Some u)
      with assms None have "u = v"
        by (simp add: runnerMain_def Let_def split_beta)
      with runCases_leaves [OF Some] show ?thesis by blast
    next
      case ended: None
      with assms None have "snd (afterSuite E (fst ?loop)) = Some v"
        by (simp add: runnerMain_def Let_def split_beta)
      then show ?thesis
        by (auto simp: afterSuite_outcome split: option.splits thrown.splits)
    qed
  qed
qed

text \<open>
  C6, as amended. When the body of a test case is run and throws an Error, the Error is
  caught at the case level: the statement that runs the body throws nothing but values that
  are not Errors, and at the end of the execution of the suite the case is \<open>FAILED\<close> and
  holds the message of the Error. When moreover the screenshot attempt for the case does not
  throw a value that is not an Error, the Runner is \<open>FAILED\<close> at the end. The executor is
  rejected with nothing but a value that is not an Error, or the reason of a rejected call of
  the driver.
\<close>

theorem body_Error_caught_at_case_level:
  assumes "caseMethod (testCases r ! index) index = Some (Error m st)"
    and "RunBody index \<in> set (trace (fst (runnerMain E (initial r))))"
  shows "status (testCases (runner (fst (runnerMain E (initial r)))) ! index) = FAILED \<and>
         exception (testCases (runner (fst (runnerMain E (initial r)))) ! index) = Some m \<and>
         ((\<forall>p x. saveScreenshot E index p \<noteq> Some (NonError x)) \<longrightarrow>
            status (runner (fst (runnerMain E (initial r)))) = FAILED) \<and>
         (\<forall>s v. snd (runBody E index s) = Some v \<longrightarrow> (\<exists>x. v = NonError x)) \<and>
         (\<forall>v. snd (runnerMain E (initial r)) = Some v \<longrightarrow>
            (\<exists>x. v = NonError x) \<or> (\<exists>i. startDriver E i = Some v) \<or>
            (\<exists>i again. destroyDriver E i again = Some v))"
proof -
  let ?s = "initial r"
  let ?s3 = "act (Emit BEFORE_SUITE (currentTestCaseIndex (runner ?s)))
               (mutate (startNow (now E (ticks ?s))) (snd (tick E ?s)))"
  let ?n = "length (testCases (runner ?s3))"
  let ?s4 = "fst (runCases E [0..<?n] ?s3)"
  have s3: "testCases (runner ?s3) = testCases r" "RunBody index \<notin> set (trace ?s3)"
    by (simp_all add: startNow_def initial_def)
  have hook: "emit E BEFORE_SUITE (runner ?s3) = None"
  proof (rule ccontr)
    assume "emit E BEFORE_SUITE (runner ?s3) \<noteq> None"
    then obtain v where "emit E BEFORE_SUITE (runner ?s3) = Some v" by auto
    then have "RunBody index \<notin> set (trace (fst (runnerMain E ?s)))"
      by (cases v) (simp_all add: runnerMain_def Let_def split_beta initial_def)
    with assms(2) show False by simp
  qed
  have final: "testCases (runner (fst (runnerMain E ?s))) = testCases (runner ?s4)"
    "status (runner (fst (runnerMain E ?s))) = status (runner ?s4)"
    "RunBody index \<in> set (trace (fst (runnerMain E ?s))) \<longleftrightarrow> RunBody index \<in> set (trace ?s4)"
    using hook by (simp_all add: runnerMain_def Let_def split_beta split: option.splits)
  have ran: "RunBody index \<in> set (trace ?s4)"
    using assms(2) final(3) by simp
  have "index \<in> set [0..<?n]"
  proof (rule ccontr)
    assume "index \<notin> set [0..<?n]"
    from runCases_other [OF this, of E ?s3] ran s3(2) show False by simp
  qed
  then have lt: "index < length (testCases (runner ?s3))" by simp
  have body: "caseMethod (testCases (runner ?s3) ! index) index = Some (Error m st)"
    unfolding s3(1) by (rule assms(1))
  from runCases_marks [OF distinct_upt lt s3(2) ran body]
  have marks: "status (testCases (runner (fst (runnerMain E ?s))) ! index) = FAILED \<and>
      exception (testCases (runner (fst (runnerMain E ?s))) ! index) = Some m \<and>
      ((\<forall>p x. saveScreenshot E index p \<noteq> Some (NonError x)) \<longrightarrow>
         status (runner (fst (runnerMain E ?s))) = FAILED)"
    unfolding final(1,2) .
  have inner: "\<forall>s v. snd (runBody E index s) = Some v \<longrightarrow> (\<exists>x. v = NonError x)"
    using runBody_NonError_only [of E index] by (simp add: NonError_iff)
  have outer: "\<forall>v. snd (runnerMain E ?s) = Some v \<longrightarrow>
            (\<exists>x. v = NonError x) \<or> (\<exists>i. startDriver E i = Some v) \<or>
            (\<exists>i again. destroyDriver E i again = Some v)"
    using runnerMain_leaves [of E ?s] by blast
  from marks inner outer show ?thesis by blast
qed

lemma failingSuite_trace:
  "trace (fst (runnerMain quiet (initial failingSuite))) =
     [Emit BEFORE_SUITE 0, StartDriver 0, Emit BEFORE_CASE 0, RunBody 0,
      SaveScreenshot 0 ''/logs/1010.png'',
      Log ERROR (''not found'' @ [CHR 0x0A] @ ''at search''),
      Emit AFTER_CASE 0, DestroyDriver 0, Emit AFTER_SUITE 0]"
  by (simp add: sample_defs run_defs)

lemma failingSuite_release_rejected:
  "trace (fst (runnerMain (releaseThrows (Error ''gone'' ''at quit'') quiet)
      (initial failingSuite))) =
     [Emit BEFORE_SUITE 0, StartDriver 0, Emit BEFORE_CASE 0, RunBody 0,
      SaveScreenshot 0 ''/logs/1010.png'',
      Log ERROR (''not found'' @ [CHR 0x0A] @ ''at search''),
      Emit AFTER_CASE 0, DestroyDriver 0]"
  "snd (runnerMain (releaseThrows (Error ''gone'' ''at quit'') quiet) (initial failingSuite)) =
     Some (Error ''gone'' ''at quit'')"
  by (simp_all add: sample_defs releaseThrows_def run_defs)

theorem body_Error_caught_at_case_level_witness:
  "caseMethod (testCases failingSuite ! 0) 0 = Some (Error ''not found'' ''at search'') \<and>
   RunBody 0 \<in> set (trace (fst (runnerMain quiet (initial failingSuite)))) \<and>
   (\<forall>p x. saveScreenshot quiet 0 p \<noteq> Some (NonError x)) \<and>
   status (testCases (runner (fst (runnerMain quiet (initial failingSuite)))) ! 0) = FAILED \<and>
   exception (testCases (runner (fst (runnerMain quiet (initial failingSuite)))) ! 0)
     = Some ''not found'' \<and>
   status (runner (fst (runnerMain quiet (initial failingSuite)))) = FAILED \<and>
   snd (runnerMain quiet (initial failingSuite)) = None \<and>
   RunBody 0 \<in> set (trace (fst (runnerMain (releaseThrows (Error ''gone'' ''at quit'') quiet)
     (initial failingSuite)))) \<and>
   snd (runnerMain (releaseThrows (Error ''gone'' ''at quit'') quiet) (initial failingSuite))
     = Some (Error ''gone'' ''at quit'') \<and>
   (\<exists>i again. destroyDriver (releaseThrows (Error ''gone'' ''at quit'') quiet) i again
      = Some (Error ''gone'' ''at quit'')) \<and>
   status (testCases (runner (fst (runnerMain (releaseThrows (Error ''gone'' ''at quit'') quiet)
     (initial failingSuite)))) ! 0) = FAILED"
proof -
  have body: "caseMethod (testCases failingSuite ! 0) 0 = Some (Error ''not found'' ''at search'')"
    by (simp add: sample_defs)
  have ran: "RunBody 0 \<in> set (trace (fst (runnerMain quiet (initial failingSuite))))"
    by (simp add: failingSuite_trace)
  have shot: "\<forall>p x. saveScreenshot quiet 0 p \<noteq> Some (NonError x)"
    by (simp add: sample_defs)
  have ran': "RunBody 0 \<in> set (trace (fst (runnerMain
      (releaseThrows (Error ''gone'' ''at quit'') quiet) (initial failingSuite))))"
    by (simp add: failingSuite_release_rejected)
  note out' = failingSuite_release_rejected(2)
  have "(\<exists>x. Error ''gone'' ''at quit'' = NonError x) \<or>
      (\<exists>i. startDriver (releaseThrows (Error ''gone'' ''at quit'') quiet) i
         = Some (Error ''gone'' ''at quit'')) \<or>
      (\<exists>i again. destroyDriver (releaseThrows (Error ''gone'' ''at quit'') quiet) i again
         = Some (Error ''gone'' ''at quit''))"
    using body_Error_caught_at_case_level [OF body ran'] out' by blast
  then have leak: "\<exists>i again. destroyDriver (releaseThrows (Error ''gone'' ''at quit'') quiet) i again
      = Some (Error ''gone'' ''at quit'')"
    by (simp add: sample_defs releaseThrows_def)
  show ?thesis
    using body_Error_caught_at_case_level [OF body ran]
      body_Error_caught_at_case_level [OF body ran'] body ran shot ran' out' leak
      failingSuite_outcome
    by blast
qed

text \<open>
  The claim as stated fails. A string thrown by the body leaves the executor, whose promise
  is rejected with it, and neither the case nor the Runner is marked \<open>FAILED\<close>. And when
  the body throws an Error and the screenshot attempt throws a string, the Runner is not
  marked \<open>FAILED\<close> and the executor is rejected.
\<close>

theorem body_thrown_value_counterexample:
  "caseMethod (testCases stringThrowingSuite ! 0) 0 = Some (NonError ''boom'') \<and>
   RunBody 0 \<in> set (trace (fst (runnerMain quiet (initial stringThrowingSuite)))) \<and>
   snd (runnerMain quiet (initial stringThrowingSuite)) = Some (NonError ''boom'') \<and>
   status (testCases (runner (fst (runnerMain quiet (initial stringThrowingSuite)))) ! 0)
     \<noteq> FAILED \<and>
   status (runner (fst (runnerMain quiet (initial stringThrowingSuite)))) \<noteq> FAILED \<and>
   caseMethod (testCases failingSuite ! 0) 0 = Some (Error ''not found'' ''at search'') \<and>
   RunBody 0 \<in> set (trace (fst (runnerMain (shotThrows (NonError ''disk full'') quiet)
     (initial failingSuite)))) \<and>
   status (runner (fst (runnerMain (shotThrows (NonError ''disk full'') quiet)
     (initial failingSuite)))) \<noteq> FAILED \<and>
   snd (runnerMain (shotThrows (NonError ''disk full'') quiet) (initial failingSuite))
     = Some (NonError ''disk full'')"
  by (simp add: sample_defs run_defs)

end
